theory Spec2Isabelle
  imports Main
begin

section \<open>The state file: JSON text and JavaScript values\<close>

text \<open>
  \<^verbatim>\<open>loadState\<close> hands the text of the state file to \<^verbatim>\<open>JSON.parse\<close> and returns
  whatever value comes back. The values are modelled as the datatype \<open>json\<close>; a
  JavaScript string is the list of its code units. A number literal is kept exactly, as
  a mantissa and a decimal exponent (\<open>JNumber m e\<close> stands for \<open>m * 10^e\<close>); the
  rounding to a double is not modelled, so the numbers of the model are the numbers of the
  program as long as they are integers below \<open>2^53\<close> in absolute value, which every
  reward epoch id is. The text of a file is a \<open>string\<close>, one \<open>char\<close> per code unit.
\<close>

type_synonym js_string = "nat list"

definition js_str :: "string \<Rightarrow> js_string" where
  "js_str s = map of_char s"

datatype json =
    JNull
  | JBool bool
  | JNumber int int
  | JString js_string
  | JArray "json list"
  | JObject "(js_string \<times> json) list"

text \<open>
  What is thrown: an object with the two fields the code looks at, each a string or
  absent.
\<close>

datatype js_error = JsError (reason: "string option") (message: "string option")

subsection \<open>JSON.parse\<close>

text \<open>
  A parser for the JSON grammar (ECMA-404): white space, the three literal names, numbers,
  strings with their escapes, arrays and objects. \<open>JSON_parse\<close> returns \<open>Inl\<close> where
  \<^verbatim>\<open>JSON.parse\<close> throws a SyntaxError. An object keeps its members in the order of the
  text; a name that comes twice is looked up at its last occurrence, as in JavaScript.
\<close>

definition dquote :: char where "dquote = CHR 0x22"
definition backslash :: char where "backslash = CHR 0x5C"
definition newline :: char where "newline = CHR 0x0A"

definition is_ws :: "char \<Rightarrow> bool" where
  "is_ws c = (c = CHR '' '' \<or> c = CHR 0x09 \<or> c = CHR 0x0A \<or> c = CHR 0x0D)"

definition skip_ws :: "string \<Rightarrow> string" where
  "skip_ws cs = dropWhile is_ws cs"

definition is_digit :: "char \<Rightarrow> bool" where
  "is_digit c = (48 \<le> (of_char c :: nat) \<and> (of_char c :: nat) \<le> 57)"

definition digit_val :: "char \<Rightarrow> nat" where
  "digit_val c = of_char c - 48"

definition digits_value :: "string \<Rightarrow> nat" where
  "digits_value ds = foldl (\<lambda>a c. 10 * a + digit_val c) 0 ds"

definition hex_val :: "char \<Rightarrow> nat option" where
  "hex_val c =
     (let n = (of_char c :: nat) in
      if 48 \<le> n \<and> n \<le> 57 then Some (n - 48)
      else if 65 \<le> n \<and> n \<le> 70 then Some (n - 55)
      else if 97 \<le> n \<and> n \<le> 102 then Some (n - 87)
      else None)"

definition simple_escape :: "char \<Rightarrow> nat option" where
  "simple_escape c =
     (if c = dquote then Some 34
      else if c = backslash then Some 92
      else if c = CHR ''/'' then Some 47
      else if c = CHR ''b'' then Some 8
      else if c = CHR ''f'' then Some 12
      else if c = CHR ''n'' then Some 10
      else if c = CHR ''r'' then Some 13
      else if c = CHR ''t'' then Some 9
      else None)"

fun parse_string_body :: "string \<Rightarrow> js_string \<Rightarrow> (js_string \<times> string) option" where
  "parse_string_body [] acc = None"
| "parse_string_body (c # cs) acc =
     (if c = dquote then Some (acc, cs)
      else if c = backslash then
        (case cs of
           [] \<Rightarrow> None
         | e # r \<Rightarrow>
             if e = CHR ''u'' then
               (case r of
                  h1 # h2 # h3 # h4 # r' \<Rightarrow>
                    (case (hex_val h1, hex_val h2, hex_val h3, hex_val h4) of
                       (Some a, Some b, Some c', Some d) \<Rightarrow>
                         parse_string_body r' (acc @ [((a * 16 + b) * 16 + c') * 16 + d])
                     | _ \<Rightarrow> None)
                | _ \<Rightarrow> None)
             else
               (case simple_escape e of
                  Some n \<Rightarrow> parse_string_body r (acc @ [n])
                | None \<Rightarrow> None))
      else if (of_char c :: nat) < 32 then None
      else parse_string_body cs (acc @ [of_char c]))"

definition parse_frac :: "string \<Rightarrow> (string \<times> string) option" where
  "parse_frac cs =
     (case cs of
        [] \<Rightarrow> Some ([], [])
      | c # r \<Rightarrow>
          if c = CHR ''.'' then
            (if takeWhile is_digit r = [] then None
             else Some (takeWhile is_digit r, dropWhile is_digit r))
          else Some ([], cs))"

definition parse_exp :: "string \<Rightarrow> (int \<times> string) option" where
  "parse_exp cs =
     (case cs of
        [] \<Rightarrow> Some (0, [])
      | c # r \<Rightarrow>
          if c = CHR ''e'' \<or> c = CHR ''E'' then
            (let (neg, r') =
                   (case r of
                      [] \<Rightarrow> (False, r)
                    | s # t \<Rightarrow>
                        if s = CHR ''-'' then (True, t)
                        else if s = CHR ''+'' then (False, t)
                        else (False, r))
             in if takeWhile is_digit r' = [] then None
                else Some ((if neg then - 1 else 1) * int (digits_value (takeWhile is_digit r')),
                           dropWhile is_digit r'))
          else Some (0, cs))"

definition parse_number :: "string \<Rightarrow> (json \<times> string) option" where
  "parse_number cs =
     (let (neg, cs1) =
            (case cs of
               [] \<Rightarrow> (False, cs)
             | c # r \<Rightarrow> if c = CHR ''-'' then (True, r) else (False, cs));
          ds = takeWhile is_digit cs1
      in if ds = [] \<or> (hd ds = CHR ''0'' \<and> 1 < length ds) then None
         else
           (case parse_frac (dropWhile is_digit cs1) of
              None \<Rightarrow> None
            | Some (fs, r2) \<Rightarrow>
                (case parse_exp r2 of
                   None \<Rightarrow> None
                 | Some (ex, r3) \<Rightarrow>
                     Some (JNumber ((if neg then - 1 else 1) * int (digits_value (ds @ fs)))
                                   (ex - int (length fs)), r3))))"

lemma length_skip_ws: "length (skip_ws cs) \<le> length cs"
  by (simp add: skip_ws_def length_dropWhile_le)

lemma skip_ws_Cons_length: "skip_ws cs = c # r \<Longrightarrow> length r < length cs"
  using length_skip_ws [of cs] by simp

text \<open>
  The parser proper: \<open>Value\<close> reads one value, \<open>Elements acc\<close> the rest of an array after
  its opening bracket or a comma, \<open>Members acc\<close> the rest of an object. Each returns
  the value and the text that is left. The tests on the lengths make the recursion
  terminate on the face of it; they never fail (\<open>parse_json_consumes\<close> and
  \<open>parse_string_body_consumes\<close> below).
\<close>

datatype mode = Value | Elements "json list" | Members "(js_string \<times> json) list"

function parse_json :: "mode \<Rightarrow> string \<Rightarrow> (json \<times> string) option" where
  "parse_json Value cs =
     (case skip_ws cs of
        [] \<Rightarrow> None
      | c # r \<Rightarrow>
          if c = CHR ''{'' then
            (case skip_ws r of
               [] \<Rightarrow> None
             | d # r' \<Rightarrow>
                 if d = CHR ''}'' then Some (JObject [], r') else parse_json (Members []) r)
          else if c = CHR ''['' then
            (case skip_ws r of
               [] \<Rightarrow> None
             | d # r' \<Rightarrow>
                 if d = CHR '']'' then Some (JArray [], r') else parse_json (Elements []) r)
          else if c = dquote then
            (case parse_string_body r [] of
               None \<Rightarrow> None
             | Some (s, r') \<Rightarrow> Some (JString s, r'))
          else if take 4 (c # r) = ''true'' then Some (JBool True, drop 4 (c # r))
          else if take 5 (c # r) = ''false'' then Some (JBool False, drop 5 (c # r))
          else if take 4 (c # r) = ''null'' then Some (JNull, drop 4 (c # r))
          else parse_number (c # r))"
| "parse_json (Elements acc) cs =
     (case parse_json Value cs of
        None \<Rightarrow> None
      | Some (v, r) \<Rightarrow>
          if length r < length cs then
            (case skip_ws r of
               [] \<Rightarrow> None
             | d # r' \<Rightarrow>
                 if d = CHR '','' then parse_json (Elements (acc @ [v])) r'
                 else if d = CHR '']'' then Some (JArray (acc @ [v]), r')
                 else None)
          else None)"
| "parse_json (Members acc) cs =
     (case skip_ws cs of
        [] \<Rightarrow> None
      | c # r \<Rightarrow>
          if c \<noteq> dquote then None
          else
            (case parse_string_body r [] of
               None \<Rightarrow> None
             | Some (k, r1) \<Rightarrow>
                 (case skip_ws r1 of
                    [] \<Rightarrow> None
                  | d # r2 \<Rightarrow>
                      if d \<noteq> CHR '':'' \<or> \<not> length r2 < length cs then None
                      else
                        (case parse_json Value r2 of
                           None \<Rightarrow> None
                         | Some (v, r3) \<Rightarrow>
                             if length r3 < length r2 then
                               (case skip_ws r3 of
                                  [] \<Rightarrow> None
                                | e # r4 \<Rightarrow>
                                    if e = CHR '','' then parse_json (Members (acc @ [(k, v)])) r4
                                    else if e = CHR ''}'' then Some (JObject (acc @ [(k, v)]), r4)
                                    else None)
                             else None))))"
  by pat_completeness auto

termination
  apply (relation "measure (\<lambda>(m, cs). 2 * length cs + (case m of Value \<Rightarrow> 0 | _ \<Rightarrow> 1))")
  apply (auto dest!: skip_ws_Cons_length)
  done

declare parse_json.simps [simp del]

definition JSON_parse :: "string \<Rightarrow> js_error + json" where
  "JSON_parse text =
     (case parse_json Value text of
        None \<Rightarrow> Inl (JsError None (Some ''SyntaxError''))
      | Some (v, r) \<Rightarrow>
          if skip_ws r = [] then Inr v else Inl (JsError None (Some ''SyntaxError'')))"

subsection \<open>What \<^verbatim>\<open>JSON.stringify(state, null, 2)\<close> writes\<close>

definition digit_char :: "nat \<Rightarrow> char" where
  "digit_char d = char_of (48 + d)"

function show_nat :: "nat \<Rightarrow> string" where
  "show_nat n = (if n < 10 then [digit_char n] else show_nat (n div 10) @ [digit_char (n mod 10)])"
  by pat_completeness auto
termination
  by (relation "measure (\<lambda>n. n)") auto

declare show_nat.simps [simp del]

definition show_int :: "int \<Rightarrow> string" where
  "show_int i = (if i < 0 then CHR ''-'' # show_nat (nat (- i)) else show_nat (nat i))"

definition JSON_stringify_state :: "int \<Rightarrow> string" where
  "JSON_stringify_state lastCompletedEpoch =
     ''{'' @ [newline] @ ''  '' @ [dquote] @ ''lastCompletedEpoch'' @ [dquote] @ '': ''
       @ show_int lastCompletedEpoch @ [newline] @ ''}''"

subsection \<open>The file system, as far as the state file goes\<close>

text \<open>
  \<open>Missing\<close>: no file at \<^verbatim>\<open>STATE_FILE\<close>. \<open>Unreadable\<close>: the path exists but cannot be
  opened (a directory, or no permission), so that reading and writing throw.
  \<open>Content s\<close>: a regular file with the text \<open>s\<close>.

  Whatever the file is, the operating system may refuse a write (a read-only file or
  directory, a quota): \<open>writeFileSync\<close> takes the error of the refusal, if there is
  one, and then throws it and leaves the file as it was. Whether a write is refused is
  for the outside world to say (\<open>write_refused\<close> below). A write that fails half-way,
  after the file was opened and emptied, is not modelled.
\<close>

datatype file_state = Missing | Unreadable | Content string

definition existsSync :: "file_state \<Rightarrow> bool" where
  "existsSync f = (f \<noteq> Missing)"

definition readFileSync :: "file_state \<Rightarrow> js_error + string" where
  "readFileSync f =
     (case f of
        Missing \<Rightarrow> Inl (JsError None (Some ''ENOENT''))
      | Unreadable \<Rightarrow> Inl (JsError None (Some ''EACCES''))
      | Content s \<Rightarrow> Inr s)"

definition writeFileSync :: "string \<Rightarrow> js_error option \<Rightarrow> file_state \<Rightarrow> js_error + file_state" where
  "writeFileSync s refusal f =
     (case refusal of
        Some err \<Rightarrow> Inl err
      | None \<Rightarrow>
          (case f of
             Unreadable \<Rightarrow> Inl (JsError None (Some ''EACCES''))
           | _ \<Rightarrow> Inr (Content s)))"

section \<open>loadState and saveState\<close>

definition default_state :: json where
  "default_state = JObject [(js_str ''lastCompletedEpoch'', JNumber (- 1) 0)]"

text \<open>The body of the \<^verbatim>\<open>try\<close> of \<^verbatim>\<open>loadState\<close>: \<open>Inr None\<close> when it falls through
  the \<^verbatim>\<open>if\<close>, \<open>Inl\<close> when \<^verbatim>\<open>readFileSync\<close> or \<^verbatim>\<open>JSON.parse\<close> throws.\<close>

definition loadState_try :: "file_state \<Rightarrow> js_error + json option" where
  "loadState_try f =
     (if existsSync f then
        (case readFileSync f of
           Inl err \<Rightarrow> Inl err
         | Inr data \<Rightarrow>
             (case JSON_parse data of
                Inl err \<Rightarrow> Inl err
              | Inr v \<Rightarrow> Inr (Some v)))
      else Inr None)"

definition loadState :: "file_state \<Rightarrow> js_error + json" where
  "loadState f =
     (case loadState_try f of
        Inr (Some v) \<Rightarrow> Inr v
      | Inr None \<Rightarrow> Inr default_state
      | Inl err \<Rightarrow> Inr default_state)"

text \<open>\<^verbatim>\<open>saveState\<close> catches the error of a failed write; the model returns it beside the
  file, so that a trace can tell a save that wrote from one that did not.\<close>

definition saveState ::
  "int \<Rightarrow> js_error option \<Rightarrow> file_state \<Rightarrow> js_error option \<times> file_state" where
  "saveState lastCompletedEpoch refusal f =
     (case writeFileSync (JSON_stringify_state lastCompletedEpoch) refusal f of
        Inl err \<Rightarrow> (Some err, f)
      | Inr f' \<Rightarrow> (None, f'))"

section \<open>Reading the checkpoint\<close>

text \<open>
  \<^verbatim>\<open>Math.max(state.lastCompletedEpoch + 1, currentRewardEpochId - 4)\<close> is applied to
  whatever \<^verbatim>\<open>loadState\<close> returned. Reading a property of \<^verbatim>\<open>null\<close> throws a TypeError;
  a value that is no object, or an object without the field, gives \<^verbatim>\<open>undefined\<close>, and
  \<^verbatim>\<open>undefined + 1\<close> is NaN. Where the field holds a string, an array or a number that is
  not an integer, JavaScript goes through string concatenation and \<^verbatim>\<open>ToNumber\<close>, which
  this development does not model: \<open>plus_one\<close> returns \<open>None\<close> there and the run is
  reported as \<open>Unmodelled\<close>.
\<close>

datatype js_number = NaN | Num int

definition get_lastCompletedEpoch :: "json \<Rightarrow> js_error + json option" where
  "get_lastCompletedEpoch state =
     (case state of
        JNull \<Rightarrow> Inl (JsError None (Some ''TypeError''))
      | JObject kvs \<Rightarrow> Inr (map_of (rev kvs) (js_str ''lastCompletedEpoch''))
      | _ \<Rightarrow> Inr None)"

definition integer_value :: "int \<Rightarrow> int \<Rightarrow> int option" where
  "integer_value m e =
     (if 0 \<le> e then Some (m * 10 ^ nat e)
      else if m mod 10 ^ nat (- e) = 0 then Some (m div 10 ^ nat (- e))
      else None)"

definition plus_one :: "json option \<Rightarrow> js_number option" where
  "plus_one v =
     (case v of
        None \<Rightarrow> Some NaN
      | Some JNull \<Rightarrow> Some (Num 1)
      | Some (JBool b) \<Rightarrow> Some (Num (if b then 2 else 1))
      | Some (JNumber m e) \<Rightarrow>
          (case integer_value m e of
             Some n \<Rightarrow> Some (Num (n + 1))
           | None \<Rightarrow> None)
      | Some (JString s) \<Rightarrow> None
      | Some (JArray vs) \<Rightarrow> None
      | Some (JObject kvs) \<Rightarrow> Some NaN)"

definition Math_max :: "js_number \<Rightarrow> int \<Rightarrow> js_number" where
  "Math_max a b = (case a of NaN \<Rightarrow> NaN | Num n \<Rightarrow> Num (max n b))"

definition startEpoch :: "json \<Rightarrow> int \<Rightarrow> js_error + js_number option" where
  "startEpoch state currentRewardEpochId =
     (case get_lastCompletedEpoch state of
        Inl err \<Rightarrow> Inl err
      | Inr v \<Rightarrow>
          (case plus_one v of
             None \<Rightarrow> Inr None
           | Some a \<Rightarrow> Inr (Some (Math_max a (currentRewardEpochId - 4)))))"

section \<open>The external collaborators\<close>

text \<open>
  The chain client, the contract binding, the signing functions and the rewards source are
  outside the repository. Each call is a function of the state \<open>'x\<close> of the outside world,
  returning that state changed and either a value or the error thrown, so that a
  collaborator may answer differently every time it is asked. \<^verbatim>\<open>ZERO_BYTES32\<close> is
  imported from the configuration and taken as a parameter. The current reward epoch
  is an integer, the contract's counter passed through \<^verbatim>\<open>Number\<close>. A hash read from the
  contract is \<open>None\<close> for \<^verbatim>\<open>null\<close> or \<^verbatim>\<open>undefined\<close> and otherwise the string it prints
  as. The operating system is part of the outside world as well: \<open>write_refused\<close> says,
  each time the state file is to be written, whether the write is refused, and with
  which error.
\<close>

record 'x collaborators =
  ZERO_BYTES32 :: string
  initializeFlareSystemsManager :: "'x \<Rightarrow> (js_error + unit) \<times> 'x"
  getCurrentRewardEpochId :: "'x \<Rightarrow> (js_error + int) \<times> 'x"
  uptimeVoteHash :: "int \<Rightarrow> 'x \<Rightarrow> (js_error + string option) \<times> 'x"
  rewardsHash :: "int \<Rightarrow> 'x \<Rightarrow> (js_error + string option) \<times> 'x"
  getUptimeVoteHash :: "'x \<Rightarrow> (js_error + string) \<times> 'x"
  signUptimeVote :: "int \<Rightarrow> string \<Rightarrow> 'x \<Rightarrow> (js_error + unit) \<times> 'x"
  getRewardsData :: "int \<Rightarrow> 'x \<Rightarrow> (js_error + string \<times> int) \<times> 'x"
  signRewards :: "int \<Rightarrow> string \<Rightarrow> int \<Rightarrow> 'x \<Rightarrow> (js_error + unit) \<times> 'x"
  write_refused :: "'x \<Rightarrow> js_error option \<times> 'x"

record 'x world =
  state_file :: file_state
  ext :: 'x

text \<open>
  A run leaves a trace: one event for every call the loop makes of a collaborator and of
  \<^verbatim>\<open>saveState\<close>, with the epoch of the iteration that made it and the error it threw
  (\<open>None\<close> when it returned), and one for the error report of the outermost \<^verbatim>\<open>catch\<close>.
  The two calls before the loop leave no event, and the other console output is not
  modelled.
\<close>

datatype op =
    UptimeVoteHash
  | GetUptimeVoteHash
  | SignUptimeVote
  | RewardsHash
  | GetRewardsData
  | SignRewards
  | SaveState

datatype event = Call op int "js_error option" | ErrorLogged js_error

section \<open>checkAndSign\<close>

text \<open>\<^verbatim>\<open>h && h.toString() !== ZERO_BYTES32\<close>\<close>

definition isHash :: "string \<Rightarrow> string option \<Rightarrow> bool" where
  "isHash zero h = (case h of None \<Rightarrow> False | Some s \<Rightarrow> s \<noteq> [] \<and> s \<noteq> zero)"

text \<open>\<^verbatim>\<open>String.prototype.includes\<close>\<close>

fun includes_str :: "string \<Rightarrow> string \<Rightarrow> bool" where
  "includes_str [] t = (t = [])"
| "includes_str (c # cs) t = (take (length t) (c # cs) = t \<or> includes_str cs t)"

text \<open>\<^verbatim>\<open>error.reason?.includes('epoch not ended') || error.message?.includes('epoch not ended')\<close>\<close>

definition epoch_not_ended :: "js_error \<Rightarrow> bool" where
  "epoch_not_ended error =
     ((case reason error of None \<Rightarrow> False | Some r \<Rightarrow> includes_str r ''epoch not ended'')
      \<or> (case message error of None \<Rightarrow> False | Some m \<Rightarrow> includes_str m ''epoch not ended''))"

text \<open>
  The first half of the loop body, up to the end of the \<^verbatim>\<open>if (isUptimeHash)\<close>. It returns
  \<open>Inr (epochNotEnded, epochFullyCompleted)\<close>, the two flags of the source, or \<open>Inl\<close> the
  error that leaves the loop: the hash read and \<^verbatim>\<open>getUptimeVoteHash\<close> stand outside the
  inner \<^verbatim>\<open>try\<close>.
\<close>

definition uptime_phase ::
  "'x collaborators \<Rightarrow> int \<Rightarrow> 'x \<Rightarrow> (js_error + bool \<times> bool) \<times> event list \<times> 'x" where
  "uptime_phase env epochId x0 =
     (case uptimeVoteHash env epochId x0 of
        (Inl err, x1) \<Rightarrow> (Inl err, [Call UptimeVoteHash epochId (Some err)], x1)
      | (Inr h, x1) \<Rightarrow>
          if isHash (ZERO_BYTES32 env) h then
            (Inr (False, True), [Call UptimeVoteHash epochId None], x1)
          else
            (case getUptimeVoteHash env x1 of
               (Inl err, x2) \<Rightarrow>
                 (Inl err,
                  [Call UptimeVoteHash epochId None, Call GetUptimeVoteHash epochId (Some err)],
                  x2)
             | (Inr fakeVoteHash, x2) \<Rightarrow>
                 (case signUptimeVote env epochId fakeVoteHash x2 of
                    (Inr u, x3) \<Rightarrow>
                      (Inr (False, True),
                       [Call UptimeVoteHash epochId None, Call GetUptimeVoteHash epochId None,
                        Call SignUptimeVote epochId None],
                       x3)
                  | (Inl error, x3) \<Rightarrow>
                      (if epoch_not_ended error then Inr (True, False) else Inr (False, False),
                       [Call UptimeVoteHash epochId None, Call GetUptimeVoteHash epochId None,
                        Call SignUptimeVote epochId (Some error)],
                       x3))))"

text \<open>
  The second half, from the read of the rewards hash to the end of its \<^verbatim>\<open>if\<close>:
  \<open>Inr True\<close> when the rewards are signed, \<open>Inr False\<close> when the inner \<^verbatim>\<open>catch\<close> ran (it
  ends in \<^verbatim>\<open>break\<close>), \<open>Inl\<close> when the hash read threw.
\<close>

definition rewards_phase ::
  "'x collaborators \<Rightarrow> int \<Rightarrow> 'x \<Rightarrow> (js_error + bool) \<times> event list \<times> 'x" where
  "rewards_phase env epochId x0 =
     (case rewardsHash env epochId x0 of
        (Inl err, x1) \<Rightarrow> (Inl err, [Call RewardsHash epochId (Some err)], x1)
      | (Inr h, x1) \<Rightarrow>
          if isHash (ZERO_BYTES32 env) h then (Inr True, [Call RewardsHash epochId None], x1)
          else
            (case getRewardsData env epochId x1 of
               (Inl err, x2) \<Rightarrow>
                 (Inr False,
                  [Call RewardsHash epochId None, Call GetRewardsData epochId (Some err)], x2)
             | (Inr (rewardsHash', noOfWeightBasedClaims), x2) \<Rightarrow>
                 (case signRewards env epochId rewardsHash' noOfWeightBasedClaims x2 of
                    (Inl err, x3) \<Rightarrow>
                      (Inr False,
                       [Call RewardsHash epochId None, Call GetRewardsData epochId None,
                        Call SignRewards epochId (Some err)],
                       x3)
                  | (Inr u, x3) \<Rightarrow>
                      (Inr True,
                       [Call RewardsHash epochId None, Call GetRewardsData epochId None,
                        Call SignRewards epochId None],
                       x3))))"

datatype step = Continue | Break | Throw js_error

text \<open>
  One iteration of the \<^verbatim>\<open>for\<close> loop. The local \<^verbatim>\<open>lastFullyCompletedEpoch\<close> is assigned
  \<^verbatim>\<open>epochId\<close> and handed to \<^verbatim>\<open>saveState\<close> in the same breath, and is otherwise only
  printed; the model passes \<open>epochId\<close> to \<open>saveState\<close>.
\<close>

definition epoch_body :: "'x collaborators \<Rightarrow> int \<Rightarrow> 'x world \<Rightarrow> step \<times> event list \<times> 'x world" where
  "epoch_body env epochId w =
     (case uptime_phase env epochId (ext w) of
        (Inl err, evs, x1) \<Rightarrow> (Throw err, evs, w\<lparr>ext := x1\<rparr>)
      | (Inr (epochNotEnded, epochFullyCompleted), evs, x1) \<Rightarrow>
          if epochNotEnded then (Break, evs, w\<lparr>ext := x1\<rparr>)
          else
            (case rewards_phase env epochId x1 of
               (Inl err, evs', x2) \<Rightarrow> (Throw err, evs @ evs', w\<lparr>ext := x2\<rparr>)
             | (Inr False, evs', x2) \<Rightarrow> (Break, evs @ evs', w\<lparr>ext := x2\<rparr>)
             | (Inr True, evs', x2) \<Rightarrow>
                 if epochFullyCompleted then
                   (case write_refused env x2 of
                      (refusal, x3) \<Rightarrow>
                        (case saveState epochId refusal (state_file w) of
                           (r, f') \<Rightarrow>
                             (Continue, evs @ evs' @ [Call SaveState epochId r],
                              \<lparr>state_file = f', ext = x3\<rparr>)))
                 else (Continue, evs @ evs', w\<lparr>ext := x2\<rparr>)))"

text \<open>The loop \<^verbatim>\<open>for (epochId = startEpoch; epochId <= currentRewardEpochId; epochId++)\<close>:
  \<open>Some err\<close> when an error left it.\<close>

function scan ::
  "'x collaborators \<Rightarrow> int \<Rightarrow> int \<Rightarrow> 'x world \<Rightarrow> js_error option \<times> event list \<times> 'x world" where
  "scan env currentRewardEpochId epochId w =
     (if epochId \<le> currentRewardEpochId then
        (case epoch_body env epochId w of
           (Continue, evs, w1) \<Rightarrow>
             (case scan env currentRewardEpochId (epochId + 1) w1 of
                (r, evs', w2) \<Rightarrow> (r, evs @ evs', w2))
         | (Break, evs, w1) \<Rightarrow> (None, evs, w1)
         | (Throw err, evs, w1) \<Rightarrow> (Some err, evs, w1))
      else (None, [], w))"
  by pat_completeness auto
termination
  by (relation "measure (\<lambda>(env, currentRewardEpochId, epochId, w).
        nat (currentRewardEpochId + 1 - epochId))") auto

declare scan.simps [simp del]

datatype completion = Completed | Raised js_error | Unmodelled

text \<open>The body of the outer \<^verbatim>\<open>try\<close>.\<close>

definition checkAndSign_try ::
  "'x collaborators \<Rightarrow> 'x world \<Rightarrow> completion \<times> event list \<times> 'x world" where
  "checkAndSign_try env w =
     (case initializeFlareSystemsManager env (ext w) of
        (Inl err, x1) \<Rightarrow> (Raised err, [], w\<lparr>ext := x1\<rparr>)
      | (Inr flareSystemsManager, x1) \<Rightarrow>
          (case getCurrentRewardEpochId env x1 of
             (Inl err, x2) \<Rightarrow> (Raised err, [], w\<lparr>ext := x2\<rparr>)
           | (Inr currentRewardEpochId, x2) \<Rightarrow>
               (case loadState (state_file w) of
                  Inl err \<Rightarrow> (Raised err, [], w\<lparr>ext := x2\<rparr>)
                | Inr state \<Rightarrow>
                    (case startEpoch state currentRewardEpochId of
                       Inl err \<Rightarrow> (Raised err, [], w\<lparr>ext := x2\<rparr>)
                     | Inr None \<Rightarrow> (Unmodelled, [], w\<lparr>ext := x2\<rparr>)
                     | Inr (Some NaN) \<Rightarrow> (Completed, [], w\<lparr>ext := x2\<rparr>)
                     | Inr (Some (Num start)) \<Rightarrow>
                         (case scan env currentRewardEpochId start (w\<lparr>ext := x2\<rparr>) of
                            (None, evs, w') \<Rightarrow> (Completed, evs, w')
                          | (Some err, evs, w') \<Rightarrow> (Raised err, evs, w'))))))"

datatype outcome = Returned | Propagated js_error

text \<open>
  \<^verbatim>\<open>checkAndSign\<close>: the outer \<^verbatim>\<open>catch\<close> reports the error and the function returns. A
  run outside the modelled fragment returns as well: whatever the loop does there, it
  does inside the \<^verbatim>\<open>try\<close>.
\<close>

definition checkAndSign :: "'x collaborators \<Rightarrow> 'x world \<Rightarrow> outcome \<times> event list \<times> 'x world" where
  "checkAndSign env w =
     (case checkAndSign_try env w of
        (Raised err, evs, w') \<Rightarrow> (Returned, evs @ [ErrorLogged err], w')
      | (c, evs, w') \<Rightarrow> (Returned, evs, w'))"

definition trace_of :: "outcome \<times> event list \<times> 'x world \<Rightarrow> event list" where
  "trace_of r = fst (snd r)"

definition world_of :: "outcome \<times> event list \<times> 'x world \<Rightarrow> 'x world" where
  "world_of r = snd (snd r)"

section \<open>runWithRetry and the scheduler\<close>

definition MAX_RETRIES :: nat where
  "MAX_RETRIES = 3"

definition RETRY_DELAY :: nat where
  "RETRY_DELAY = 30 * 1000"

text \<open>
  What \<^verbatim>\<open>runWithRetry\<close> does, in order: \<open>Invoked t r\<close> is one call of the routine, with
  the trace \<open>t\<close> it left and how it ended, \<open>AttemptFailed n\<close> the report
  \<^verbatim>\<open>Attempt n failed\<close>, \<open>Waited d\<close> the timer of \<open>d\<close> milliseconds, and
  \<open>MaxRetriesReached\<close> the last report. The loop is written over any routine, so that
  its behaviour is known for a routine that throws, which \<^verbatim>\<open>checkAndSign\<close> does not.
\<close>

datatype 't retry_event = Invoked 't outcome | AttemptFailed nat | Waited nat | MaxRetriesReached

function runWithRetry_loop ::
  "('w \<Rightarrow> outcome \<times> 't \<times> 'w) \<Rightarrow> nat \<Rightarrow> 'w \<Rightarrow> 't retry_event list \<times> 'w" where
  "runWithRetry_loop routine retries w =
     (if retries < MAX_RETRIES then
        (case routine w of
           (Returned, t, w') \<Rightarrow> ([Invoked t Returned], w')
         | (Propagated error, t, w') \<Rightarrow>
             (case runWithRetry_loop routine (retries + 1) w' of
                (evs, w'') \<Rightarrow>
                  (Invoked t (Propagated error) # AttemptFailed (retries + 1)
                     # (if retries + 1 < MAX_RETRIES then [Waited RETRY_DELAY] else []) @ evs,
                   w'')))
      else ([MaxRetriesReached], w))"
  by pat_completeness auto
termination
  by (relation "measure (\<lambda>(routine, retries, w). MAX_RETRIES - retries)") auto

declare runWithRetry_loop.simps [simp del]


text \<open>
  The part of the \<^verbatim>\<open>try\<close> body before the loop, up to the first \<^verbatim>\<open>await\<close> inside it:
  \<open>Inr\<close> the current reward epoch, the start epoch and the world when the loop is
  entered, \<open>Inl\<close> how the run ended when it does not get there. The state file is read
  here, once, and never again by this run.
\<close>

definition enter_loop ::
  "'x collaborators \<Rightarrow> 'x world \<Rightarrow> (completion \<times> 'x world) + (int \<times> int \<times> 'x world)" where
  "enter_loop env w =
     (case initializeFlareSystemsManager env (ext w) of
        (Inl err, x1) \<Rightarrow> Inl (Raised err, w\<lparr>ext := x1\<rparr>)
      | (Inr flareSystemsManager, x1) \<Rightarrow>
          (case getCurrentRewardEpochId env x1 of
             (Inl err, x2) \<Rightarrow> Inl (Raised err, w\<lparr>ext := x2\<rparr>)
           | (Inr currentRewardEpochId, x2) \<Rightarrow>
               (case loadState (state_file w) of
                  Inl err \<Rightarrow> Inl (Raised err, w\<lparr>ext := x2\<rparr>)
                | Inr state \<Rightarrow>
                    (case startEpoch state currentRewardEpochId of
                       Inl err \<Rightarrow> Inl (Raised err, w\<lparr>ext := x2\<rparr>)
                     | Inr None \<Rightarrow> Inl (Unmodelled, w\<lparr>ext := x2\<rparr>)
                     | Inr (Some NaN) \<Rightarrow> Inl (Completed, w\<lparr>ext := x2\<rparr>)
                     | Inr (Some (Num start)) \<Rightarrow>
                         Inr (currentRewardEpochId, start, w\<lparr>ext := x2\<rparr>)))))"



section \<open>Reading traces\<close>

fun event_epoch :: "event \<Rightarrow> int option" where
  "event_epoch (Call p e r) = Some e"
| "event_epoch (ErrorLogged err) = None"


text \<open>The operations a trace holds for one epoch, in order.\<close>

fun op_at :: "int \<Rightarrow> event \<Rightarrow> op option" where
  "op_at e (Call p e' r) = (if e' = e then Some p else None)"
| "op_at e (ErrorLogged err) = None"

definition ops_at :: "int \<Rightarrow> event list \<Rightarrow> op list" where
  "ops_at e tr = List.map_filter (op_at e) tr"

text \<open>The epochs \<^verbatim>\<open>saveState\<close> was called with, and those it wrote to the file.\<close>

fun completed_epoch :: "event \<Rightarrow> int option" where
  "completed_epoch (Call p e r) = (if p = SaveState then Some e else None)"
| "completed_epoch (ErrorLogged err) = None"

fun saved_epoch :: "event \<Rightarrow> int option" where
  "saved_epoch (Call p e r) = (if p = SaveState \<and> r = None then Some e else None)"
| "saved_epoch (ErrorLogged err) = None"

definition completed_epochs :: "event list \<Rightarrow> int list" where
  "completed_epochs tr = List.map_filter completed_epoch tr"

definition saved_epochs :: "event list \<Rightarrow> int list" where
  "saved_epochs tr = List.map_filter saved_epoch tr"

text \<open>The checkpoint a file holds: the integer \<^verbatim>\<open>lastCompletedEpoch\<close> of what
  \<^verbatim>\<open>loadState\<close> returns, if it is one.\<close>

definition persisted_checkpoint :: "file_state \<Rightarrow> int option" where
  "persisted_checkpoint f =
     (case loadState f of
        Inl err \<Rightarrow> None
      | Inr state \<Rightarrow>
          (case get_lastCompletedEpoch state of
             Inr (Some (JNumber m e)) \<Rightarrow> integer_value m e
           | _ \<Rightarrow> None))"

section \<open>Notions used in the statements\<close>

text \<open>
  The file contents the specification calls malformed: text that is not JSON, or JSON
  that is not an object with an integer \<^verbatim>\<open>lastCompletedEpoch\<close>.
\<close>

definition well_formed_state :: "json \<Rightarrow> bool" where
  "well_formed_state v =
     (case v of
        JObject kvs \<Rightarrow>
          (case map_of (rev kvs) (js_str ''lastCompletedEpoch'') of
             Some (JNumber m e) \<Rightarrow> integer_value m e \<noteq> None
           | _ \<Rightarrow> False)
      | _ \<Rightarrow> False)"

definition malformed :: "string \<Rightarrow> bool" where
  "malformed s = (case JSON_parse s of Inl err \<Rightarrow> True | Inr v \<Rightarrow> \<not> well_formed_state v)"

text \<open>The number \<^verbatim>\<open>state.lastCompletedEpoch + 1\<close> for the state a file holds, where it
  is one.\<close>

definition resume_point :: "file_state \<Rightarrow> int option" where
  "resume_point f =
     (case loadState f of
        Inl err \<Rightarrow> None
      | Inr state \<Rightarrow>
          (case get_lastCompletedEpoch state of
             Inl err \<Rightarrow> None
           | Inr v \<Rightarrow> (case plus_one v of Some (Num n) \<Rightarrow> Some n | _ \<Rightarrow> None)))"

text \<open>
  The files for which the model is the program: \<^verbatim>\<open>state.lastCompletedEpoch + 1\<close> is a
  number the model computes, or reading the field throws.
\<close>

definition modelled :: "file_state \<Rightarrow> bool" where
  "modelled f =
     (case loadState f of
        Inl err \<Rightarrow> True
      | Inr state \<Rightarrow>
          (case get_lastCompletedEpoch state of
             Inl err \<Rightarrow> True
           | Inr v \<Rightarrow> plus_one v \<noteq> None))"



fun is_invoked :: "'t retry_event \<Rightarrow> bool" where
  "is_invoked (Invoked t r) = True"
| "is_invoked (AttemptFailed n) = False"
| "is_invoked (Waited d) = False"
| "is_invoked MaxRetriesReached = False"

section \<open>Collaborators for the scenarios\<close>

text \<open>
  A contract that does not change: the current reward epoch, the two hashes of every
  epoch, and for each of the three calls that may fail the error it throws for an epoch,
  if any. No write of the state file is refused.
\<close>

definition zero_bytes32 :: string where
  "zero_bytes32 = ''0x'' @ replicate 64 (CHR ''0'')"

definition fixed_env ::
  "int \<Rightarrow> (int \<Rightarrow> string option) \<Rightarrow> (int \<Rightarrow> string option) \<Rightarrow> (int \<Rightarrow> js_error option)
    \<Rightarrow> (int \<Rightarrow> js_error option) \<Rightarrow> (int \<Rightarrow> js_error option) \<Rightarrow> unit collaborators" where
  "fixed_env current uptime rewards vote_error data_error sign_error =
     \<lparr>ZERO_BYTES32 = zero_bytes32,
      initializeFlareSystemsManager = (\<lambda>x. (Inr (), x)),
      getCurrentRewardEpochId = (\<lambda>x. (Inr current, x)),
      uptimeVoteHash = (\<lambda>e x. (Inr (uptime e), x)),
      rewardsHash = (\<lambda>e x. (Inr (rewards e), x)),
      getUptimeVoteHash = (\<lambda>x. (Inr ''0xfake'', x)),
      signUptimeVote = (\<lambda>e h x. (case vote_error e of None \<Rightarrow> Inr () | Some err \<Rightarrow> Inl err, x)),
      getRewardsData =
        (\<lambda>e x. (case data_error e of None \<Rightarrow> Inr (''0xrewards'', 0) | Some err \<Rightarrow> Inl err, x)),
      signRewards = (\<lambda>e h n x. (case sign_error e of None \<Rightarrow> Inr () | Some err \<Rightarrow> Inl err, x)),
      write_refused = (\<lambda>x. (None, x))\<rparr>"

text \<open>The scenarios of the specification, and three more.\<close>

definition not_ended_error :: js_error where
  "not_ended_error = JsError (Some ''execution reverted: epoch not ended yet'') None"

definition generic_error :: js_error where
  "generic_error = JsError None (Some ''insufficient funds'')"

text \<open>Scenario A: nothing is signed for epoch 0, the current one; every call succeeds.\<close>

definition scenario_A :: "unit collaborators" where
  "scenario_A = fixed_env 0 (\<lambda>e. None) (\<lambda>e. None) (\<lambda>e. None) (\<lambda>e. None) (\<lambda>e. None)"

text \<open>Scenario B: the current epoch is 2 and both of its hashes are there.\<close>

definition scenario_B :: "unit collaborators" where
  "scenario_B =
     fixed_env 2 (\<lambda>e. Some ''0xa1'') (\<lambda>e. Some ''0xb2'') (\<lambda>e. None) (\<lambda>e. None) (\<lambda>e. None)"

text \<open>Scenario C: the current epoch is 3, nothing is signed, and the uptime vote for
  epoch 1 is refused because the epoch has not ended.\<close>

definition scenario_C :: "unit collaborators" where
  "scenario_C =
     fixed_env 3 (\<lambda>e. None) (\<lambda>e. None) (\<lambda>e. if e = 1 then Some not_ended_error else None)
       (\<lambda>e. None) (\<lambda>e. None)"




text \<open>A routine that throws the first \<open>k\<close> times it is called; its world counts the
  calls, and its trace is the number of the call.\<close>

definition failing_routine :: "nat \<Rightarrow> nat \<Rightarrow> outcome \<times> nat list \<times> nat" where
  "failing_routine k n = (if n < k then Propagated generic_error else Returned, [n], n + 1)"

text \<open>The uptime vote of epoch 5 is missing and cannot be signed, for a reason other than
  the end of the epoch; everything else is signed, up to the current epoch 6.\<close>

definition scenario_skip :: "unit collaborators" where
  "scenario_skip =
     fixed_env 6 (\<lambda>e. if e = 5 then None else Some ''0xa1'') (\<lambda>e. Some ''0xb2'')
       (\<lambda>e. Some generic_error) (\<lambda>e. None) (\<lambda>e. None)"

text \<open>The contract answers, no uptime vote is signed, and \<^verbatim>\<open>getUptimeVoteHash\<close> throws,
  outside every inner \<^verbatim>\<open>try\<close>.\<close>

definition throwing_env :: "unit collaborators" where
  "throwing_env =
     (fixed_env 3 (\<lambda>e. None) (\<lambda>e. None) (\<lambda>e. None) (\<lambda>e. None) (\<lambda>e. None))
       \<lparr>getUptimeVoteHash := (\<lambda>x. (Inl (JsError None (Some ''no provider'')), x))\<rparr>"

section \<open>What is written to the state file is read back\<close>

lemma is_digit_digit_char: "d < 10 \<Longrightarrow> is_digit (digit_char d)"
  by (simp add: is_digit_def digit_char_def)

lemma digit_val_digit_char: "d < 10 \<Longrightarrow> digit_val (digit_char d) = d"
  by (simp add: digit_val_def digit_char_def)

lemma show_nat_nonempty: "show_nat n \<noteq> []"
  by (subst show_nat.simps) simp

lemma show_nat_digits: "c \<in> set (show_nat n) \<Longrightarrow> is_digit c"
proof (induction n arbitrary: c rule: show_nat.induct)
  case (1 n)
  show ?case
  proof (cases "n < 10")
    case True
    with "1.prems" show ?thesis
      by (subst (asm) show_nat.simps) (simp add: is_digit_digit_char)
  next
    case False
    with "1.prems" have "c \<in> set (show_nat (n div 10)) \<or> c = digit_char (n mod 10)"
      by (subst (asm) show_nat.simps) auto
    with False "1.IH" show ?thesis
      by (auto simp: is_digit_digit_char)
  qed
qed

lemma digits_value_snoc: "digits_value (ds @ [c]) = 10 * digits_value ds + digit_val c"
  by (simp add: digits_value_def)

lemma digits_value_show_nat: "digits_value (show_nat n) = n"
proof (induction n rule: show_nat.induct)
  case (1 n)
  show ?case
  proof (cases "n < 10")
    case True
    then show ?thesis
      by (subst show_nat.simps) (simp add: digits_value_def digit_val_digit_char)
  next
    case False
    with "1.IH" show ?thesis
      by (subst show_nat.simps) (simp add: digits_value_snoc digit_val_digit_char)
  qed
qed

lemma hd_show_nat: "0 < n \<Longrightarrow> hd (show_nat n) \<noteq> CHR ''0''"
proof (induction n rule: show_nat.induct)
  case (1 n)
  show ?case
  proof (cases "n < 10")
    case True
    have "digit_char n \<noteq> CHR ''0''"
    proof
      assume "digit_char n = CHR ''0''"
      then have "(of_char (digit_char n) :: nat) = of_char (CHR ''0'')" by simp
      with True "1.prems" show False by (simp add: digit_char_def)
    qed
    with True show ?thesis
      by (subst show_nat.simps) simp
  next
    case False
    then have "0 < n div 10" by simp
    with False "1.IH" have "hd (show_nat (n div 10)) \<noteq> CHR ''0''" by simp
    with False show ?thesis
      by (subst show_nat.simps) (simp add: show_nat_nonempty)
  qed
qed

lemma char_of_48: "char_of (48::nat) = CHR ''0''"
  by code_simp

lemma show_nat_0: "show_nat 0 = ''0''"
  by (subst show_nat.simps) (simp add: digit_char_def char_of_48)

lemma leading_zero_show_nat: "hd (show_nat n) = CHR ''0'' \<Longrightarrow> length (show_nat n) = 1"
  using hd_show_nat [of n] by (cases "n = 0") (simp_all add: show_nat_0)


lemma parse_number_digits:
  assumes ne: "ds \<noteq> []" and dig: "\<And>c. c \<in> set ds \<Longrightarrow> is_digit c"
    and lz: "hd ds = CHR ''0'' \<Longrightarrow> length ds = 1"
    and t: "\<not> is_digit t" "t \<noteq> CHR ''.''" "t \<noteq> CHR ''e''" "t \<noteq> CHR ''E''"
  shows "parse_number (ds @ t # rest) = Some (JNumber (int (digits_value ds)) 0, t # rest)"
    and "parse_number (CHR ''-'' # ds @ t # rest) = Some (JNumber (- int (digits_value ds)) 0, t # rest)"
proof -
  obtain c r where cr: "ds = c # r" using ne by (cases ds) auto
  have "is_digit c" using dig cr by simp
  then have c: "c \<noteq> CHR ''-''" by (auto simp: is_digit_def)
  have tw: "takeWhile is_digit (ds @ t # rest) = ds"
    using dig t(1) by (simp add: takeWhile_append2)
  have dw: "dropWhile is_digit (ds @ t # rest) = t # rest"
    using dig t(1) by (simp add: dropWhile_append2)
  have lz': "\<not> (hd ds = CHR ''0'' \<and> 1 < length ds)" using lz by auto
  have fr: "parse_frac (t # rest) = Some ([], t # rest)"
    using t by (simp add: parse_frac_def)
  have ex: "parse_exp (t # rest) = Some (0, t # rest)"
    using t by (simp add: parse_exp_def)
  have "parse_number (c # r @ t # rest) = Some (JNumber (int (digits_value ds)) 0, t # rest)"
    unfolding parse_number_def using c ne lz' tw dw fr ex
    by (simp add: cr Let_def del: takeWhile.simps dropWhile.simps)
  then show "parse_number (ds @ t # rest) = Some (JNumber (int (digits_value ds)) 0, t # rest)"
    by (simp add: cr)
  show "parse_number (CHR ''-'' # ds @ t # rest) = Some (JNumber (- int (digits_value ds)) 0, t # rest)"
    unfolding parse_number_def using ne lz' tw dw fr ex
    by (simp add: Let_def del: takeWhile.simps dropWhile.simps)
qed

lemma newline_not_number: 
  "\<not> is_digit newline" "newline \<noteq> CHR ''.''" "newline \<noteq> CHR ''e''" "newline \<noteq> CHR ''E''"
  by (simp_all add: is_digit_def newline_def)

lemma parse_number_show_nat:
  "parse_number (show_nat k @ newline # rest) = Some (JNumber (int k) 0, newline # rest)"
  "parse_number (CHR ''-'' # show_nat k @ newline # rest) = Some (JNumber (- int k) 0, newline # rest)"
proof -
  have ne: "show_nat k \<noteq> []" by (rule show_nat_nonempty)
  have dig: "\<And>c. c \<in> set (show_nat k) \<Longrightarrow> is_digit c" by (rule show_nat_digits)
  have lz: "hd (show_nat k) = CHR ''0'' \<Longrightarrow> length (show_nat k) = 1"
    by (rule leading_zero_show_nat)
  show "parse_number (show_nat k @ newline # rest) = Some (JNumber (int k) 0, newline # rest)"
    using parse_number_digits(1) [OF ne dig lz newline_not_number]
    by (simp add: digits_value_show_nat)
  show "parse_number (CHR ''-'' # show_nat k @ newline # rest) = Some (JNumber (- int k) 0, newline # rest)"
    using parse_number_digits(2) [OF ne dig lz newline_not_number]
    by (simp add: digits_value_show_nat)
qed

lemma parse_number_show_int:
  "parse_number (show_int i @ newline # rest) = Some (JNumber i 0, newline # rest)"
proof (cases "i < 0")
  case False
  then show ?thesis
    using parse_number_show_nat(1) [of "nat i" rest] by (simp add: show_int_def)
next
  case True
  then show ?thesis
    using parse_number_show_nat(2) [of "nat (- i)" rest] by (simp add: show_int_def)
qed

lemma show_int_first: "\<exists>c r. show_int i = c # r \<and> (c = CHR ''-'' \<or> is_digit c)"
proof (cases "i < 0")
  case True
  then show ?thesis by (simp add: show_int_def)
next
  case False
  obtain c r where cr: "show_nat (nat i) = c # r"
    using show_nat_nonempty [of "nat i"] by (cases "show_nat (nat i)") auto
  then have "is_digit c" using show_nat_digits [of c "nat i"] by simp
  with cr False show ?thesis by (simp add: show_int_def)
qed


lemma number_start:
  assumes "c = CHR ''-'' \<or> is_digit c"
  shows "\<not> is_ws c" "c \<noteq> CHR ''{''" "c \<noteq> CHR ''[''" "c \<noteq> dquote"
    "c \<noteq> CHR ''t''" "c \<noteq> CHR ''f''" "c \<noteq> CHR ''n''"
proof -
  have d: "\<not> is_digit (CHR '' '')" "\<not> is_digit (CHR 0x09)" "\<not> is_digit (CHR 0x0A)"
    "\<not> is_digit (CHR 0x0D)" "\<not> is_digit (CHR ''{'')" "\<not> is_digit (CHR ''['')"
    "\<not> is_digit (CHR 0x22)" "\<not> is_digit (CHR ''t'')" "\<not> is_digit (CHR ''f'')"
    "\<not> is_digit (CHR ''n'')"
    by (simp_all add: is_digit_def)
  show "\<not> is_ws c" using assms d(1-4) unfolding is_ws_def by blast
  show "c \<noteq> CHR ''{''" using assms d(5) by blast
  show "c \<noteq> CHR ''[''" using assms d(6) by blast
  show "c \<noteq> dquote" using assms d(7) unfolding dquote_def by blast
  show "c \<noteq> CHR ''t''" using assms d(8) by blast
  show "c \<noteq> CHR ''f''" using assms d(9) by blast
  show "c \<noteq> CHR ''n''" using assms d(10) by blast
qed

lemma parse_json_Value_number:
  assumes "c = CHR ''-'' \<or> is_digit c"
  shows "parse_json Value (c # r) = parse_number (c # r)"
  apply (subst parse_json.simps(1))
  apply (simp add: skip_ws_def number_start [OF assms])
  done

lemma parse_json_Value_ws:
  assumes "is_ws w"
  shows "parse_json Value (w # cs) = parse_json Value cs"
  using assms
  by (simp only: parse_json.simps(1) [of "w # cs"] parse_json.simps(1) [of cs] skip_ws_def
        dropWhile.simps if_True)

lemma JSON_parse_stringify:
  "JSON_parse (JSON_stringify_state n) = Inr (JObject [(js_str ''lastCompletedEpoch'', JNumber n 0)])"
proof -
  obtain c r where cr: "show_int n = c # r" and c: "c = CHR ''-'' \<or> is_digit c"
    using show_int_first [of n] by blast
  have ws: "\<not> is_ws c" using c by (auto simp: is_ws_def is_digit_def)
  have num: "parse_json Value (CHR '' '' # c # r @ [newline, CHR ''}'']) = Some (JNumber n 0, [newline, CHR ''}''])"
    using parse_json_Value_number [OF c, of "r @ [newline, CHR ''}'']"]
      parse_number_show_int [of n "[CHR ''}'']"] cr 
    by (simp add: parse_json_Value_ws is_ws_def)
  show ?thesis
    unfolding JSON_parse_def JSON_stringify_state_def cr
    apply (subst parse_json.simps(1))
    apply (simp add: skip_ws_def is_ws_def dquote_def newline_def)
    apply (subst parse_json.simps(3))
    apply (simp add: skip_ws_def is_ws_def dquote_def newline_def backslash_def)
    apply (simp add: num [unfolded newline_def] skip_ws_def is_ws_def js_str_def)
    done
qed

section \<open>The parser consumes what it reads\<close>

lemma parse_string_body_consumes:
  "parse_string_body cs acc = Some (s, r) \<Longrightarrow> length r < length cs"
proof (induction cs arbitrary: acc rule: length_induct)
  case (1 cs)
  have ih: "\<And>cs' acc'. length cs' < length cs \<Longrightarrow> parse_string_body cs' acc' = Some (s, r)
      \<Longrightarrow> length r < length cs"
    using "1.IH" by fastforce
  show ?case
  proof (cases cs)
    case Nil
    with "1.prems" show ?thesis by simp
  next
    case (Cons c cs')
    show ?thesis
    proof (cases "c = dquote")
      case True
      with "1.prems" Cons show ?thesis by simp
    next
      case nq: False
      show ?thesis
      proof (cases "c = backslash")
        case False
        with nq "1.prems" Cons have "parse_string_body cs' (acc @ [of_char c]) = Some (s, r)"
          by (simp split: if_splits)
        with ih [of cs'] Cons show ?thesis by simp
      next
        case True
        with nq "1.prems" Cons obtain e r0 where cs': "cs' = e # r0"
          by (cases cs') auto
        show ?thesis
        proof (cases "e = CHR ''u''")
          case False
          with nq True "1.prems" Cons cs' obtain n where
            "parse_string_body r0 (acc @ [n]) = Some (s, r)"
            by (auto split: option.splits)
          with ih [of r0] Cons cs' show ?thesis by simp
        next
          case u: True
          with nq True "1.prems" Cons cs' obtain h1 h2 h3 h4 r' n where
            r0: "r0 = h1 # h2 # h3 # h4 # r'" and "parse_string_body r' (acc @ [n]) = Some (s, r)"
            by (auto split: list.splits option.splits)
          with ih [of r'] Cons cs' show ?thesis by simp
        qed
      qed
    qed
  qed
qed

lemma dropWhile_shorter:
  assumes "takeWhile P xs \<noteq> []"
  shows "length (dropWhile P xs) < length xs"
proof -
  have "length xs = length (takeWhile P xs) + length (dropWhile P xs)"
    by (metis length_append takeWhile_dropWhile_id)
  with assms show ?thesis by simp
qed

lemma parse_frac_consumes: "parse_frac xs = Some (fs, r) \<Longrightarrow> length r \<le> length xs"
  using length_dropWhile_le [of is_digit "tl xs"]
  by (auto simp: parse_frac_def split: list.splits if_splits)

lemma parse_exp_consumes: "parse_exp xs = Some (e, r) \<Longrightarrow> length r \<le> length xs"
proof (cases xs)
  case Nil
  then show "parse_exp xs = Some (e, r) \<Longrightarrow> length r \<le> length xs"
    by (simp add: parse_exp_def)
next
  case (Cons c t)
  assume p: "parse_exp xs = Some (e, r)"
  show "length r \<le> length xs"
  proof (cases "c = CHR ''e'' \<or> c = CHR ''E''")
    case False
    with p Cons show ?thesis by (auto simp: parse_exp_def)
  next
    case True
    with p Cons have "r = dropWhile is_digit t \<or> r = dropWhile is_digit (tl t)"
      by (auto simp: parse_exp_def Let_def split: list.splits if_splits
          simp del: dropWhile.simps takeWhile.simps)
    with length_dropWhile_le [of is_digit t] length_dropWhile_le [of is_digit "tl t"] Cons
    show ?thesis by auto
  qed
qed

lemma parse_number_consumes:
  assumes "parse_number cs = Some (v, r)"
  shows "length r < length cs"
proof -
  obtain neg cs1 where pr:
    "(case cs of [] \<Rightarrow> (False, cs)
      | c # r \<Rightarrow> if c = CHR ''-'' then (True, r) else (False, cs)) = (neg, cs1)"
    using prod.exhaust by blast
  then have cs1: "length cs1 \<le> length cs" by (auto split: list.splits if_splits)
  from assms obtain fs r2 ex where
    ds: "takeWhile is_digit cs1 \<noteq> []"
    and fr: "parse_frac (dropWhile is_digit cs1) = Some (fs, r2)"
    and ex: "parse_exp r2 = Some (ex, r)"
    unfolding parse_number_def pr
    by (auto simp: Let_def split: if_splits option.splits
        simp del: takeWhile.simps dropWhile.simps)
  from dropWhile_shorter [OF ds] parse_frac_consumes [OF fr] parse_exp_consumes [OF ex] cs1
  show ?thesis by simp
qed

lemma drop_shorter: "xs \<noteq> [] \<Longrightarrow> 0 < n \<Longrightarrow> length (drop n xs) < length xs"
  by (cases xs) auto

lemma parse_json_consumes:
  "parse_json m cs = Some (v, r) \<Longrightarrow> length r < length cs"
proof (induction "2 * length cs + (case m of Value \<Rightarrow> 0 | _ \<Rightarrow> 1)"
    arbitrary: m cs v r rule: less_induct)
  case less
  have ihS: "\<And>m' cs' v' r'. length cs' < length cs \<Longrightarrow> parse_json m' cs' = Some (v', r')
      \<Longrightarrow> length r' < length cs'"
    by (rule less.hyps) (auto split: mode.splits)
  have ihV: "\<And>cs' v' r'. m \<noteq> Value \<Longrightarrow> length cs' \<le> length cs \<Longrightarrow>
      parse_json Value cs' = Some (v', r') \<Longrightarrow> length r' < length cs'"
    by (rule less.hyps) (auto split: mode.splits)
  note ws = skip_ws_Cons_length
  show ?case
  proof (cases m)
    case Value
    with less.prems have "parse_json Value cs = Some (v, r)" by simp
    note u = this [unfolded parse_json.simps(1) [of cs]]
    from u obtain c r0 where sk: "skip_ws cs = c # r0"
      by (auto split: list.splits)
    note r0 = ws [OF sk]
    have le: "length (c # r0) \<le> length cs" using length_skip_ws [of cs] sk by simp
    consider (obj) "c = CHR ''{''" | (arr) "c \<noteq> CHR ''{''" "c = CHR ''[''"
      | (str) "c \<noteq> CHR ''{''" "c \<noteq> CHR ''[''" "c = dquote"
      | (other) "c \<noteq> CHR ''{''" "c \<noteq> CHR ''[''" "c \<noteq> dquote"
      by blast
    then show ?thesis
    proof cases
      case obj
      with u sk obtain d r' where d: "skip_ws r0 = d # r'"
        and res: "d = CHR ''}'' \<and> r = r' \<or> parse_json (Members []) r0 = Some (v, r)"
        by (auto split: list.splits if_splits)
      from res show ?thesis
      proof
        assume "d = CHR ''}'' \<and> r = r'"
        with ws [OF d] r0 show ?thesis by simp
      next
        assume "parse_json (Members []) r0 = Some (v, r)"
        from ihS [OF r0 this] r0 show ?thesis by simp
      qed
    next
      case arr
      with u sk obtain d r' where d: "skip_ws r0 = d # r'"
        and res: "d = CHR '']'' \<and> r = r' \<or> parse_json (Elements []) r0 = Some (v, r)"
        by (auto split: list.splits if_splits)
      from res show ?thesis
      proof
        assume "d = CHR '']'' \<and> r = r'"
        with ws [OF d] r0 show ?thesis by simp
      next
        assume "parse_json (Elements []) r0 = Some (v, r)"
        from ihS [OF r0 this] r0 show ?thesis by simp
      qed
    next
      case str
      with u sk obtain s where "parse_string_body r0 [] = Some (s, r)"
        by (auto split: option.splits)
      from parse_string_body_consumes [OF this] r0 show ?thesis by simp
    next
      case other
      with u sk have
        "r = drop 4 (c # r0) \<or> r = drop 5 (c # r0) \<or> parse_number (c # r0) = Some (v, r)"
        by (auto split: if_splits simp del: drop_Suc_Cons)
      with drop_shorter [of "c # r0" 4] drop_shorter [of "c # r0" 5]
        parse_number_consumes [of "c # r0" v r] le
      show ?thesis by auto
    qed
  next
    case (Elements acc)
    with less.prems have "parse_json (Elements acc) cs = Some (v, r)" by simp
    note u = this [unfolded parse_json.simps(2) [of acc cs]]
    from u obtain v1 r1 d r' where v1: "parse_json Value cs = Some (v1, r1)"
      and d: "skip_ws r1 = d # r'"
      and res: "d = CHR '','' \<and> parse_json (Elements (acc @ [v1])) r' = Some (v, r)
                \<or> d = CHR '']'' \<and> r = r'"
      by (auto split: option.splits list.splits if_splits)
    from ihV [OF _ _ v1] Elements have r1: "length r1 < length cs" by simp
    note r' = ws [OF d]
    from res show ?thesis
    proof
      assume "d = CHR '','' \<and> parse_json (Elements (acc @ [v1])) r' = Some (v, r)"
      then have "parse_json (Elements (acc @ [v1])) r' = Some (v, r)" by simp
      moreover have "length r' < length cs" using r1 r' by simp
      ultimately have "length r < length r'" by (rule ihS [rotated])
      with r1 r' show ?thesis by simp
    next
      assume "d = CHR '']'' \<and> r = r'"
      with r1 r' show ?thesis by simp
    qed
  next
    case (Members acc)
    with less.prems have "parse_json (Members acc) cs = Some (v, r)" by simp
    note u = this [unfolded parse_json.simps(3) [of acc cs]]
    from u obtain c r0 k r1 d r2 v1 r3 e r4 where
      "skip_ws cs = c # r0" "parse_string_body r0 [] = Some (k, r1)" "skip_ws r1 = d # r2"
      and r2: "length r2 < length cs" and v1: "parse_json Value r2 = Some (v1, r3)"
      and e: "skip_ws r3 = e # r4"
      and res: "e = CHR '','' \<and> parse_json (Members (acc @ [(k, v1)])) r4 = Some (v, r)
                \<or> e = CHR ''}'' \<and> r = r4"
      by (auto split: option.splits list.splits if_splits)
    from ihS [OF r2 v1] have r3: "length r3 < length r2" .
    note r4 = ws [OF e]
    from res show ?thesis
    proof
      assume "e = CHR '','' \<and> parse_json (Members (acc @ [(k, v1)])) r4 = Some (v, r)"
      then have "parse_json (Members (acc @ [(k, v1)])) r4 = Some (v, r)" by simp
      moreover have "length r4 < length cs" using r2 r3 r4 by simp
      ultimately have "length r < length r4" by (rule ihS [rotated])
      with r2 r3 r4 show ?thesis by simp
    next
      assume "e = CHR ''}'' \<and> r = r4"
      with r2 r3 r4 show ?thesis by simp
    qed
  qed
qed

section \<open>The loop\<close>

lemma uptime_phase_shape:
  assumes "uptime_phase env e x = (r, evs, x')"
  shows "(\<exists>err. r = Inl err \<and> evs = [Call UptimeVoteHash e (Some err)]) \<or>
         (r = Inr (False, True) \<and> evs = [Call UptimeVoteHash e None]) \<or>
         (\<exists>err. r = Inl err \<and>
            evs = [Call UptimeVoteHash e None, Call GetUptimeVoteHash e (Some err)]) \<or>
         (r = Inr (False, True) \<and>
            evs = [Call UptimeVoteHash e None, Call GetUptimeVoteHash e None,
                   Call SignUptimeVote e None]) \<or>
         (\<exists>err. r = Inr (epoch_not_ended err, False) \<and>
            evs = [Call UptimeVoteHash e None, Call GetUptimeVoteHash e None,
                   Call SignUptimeVote e (Some err)])"
  using assms
  by (auto simp: uptime_phase_def split: prod.splits sum.splits if_splits)

lemma rewards_phase_shape:
  assumes "rewards_phase env e x = (r, evs, x')"
  shows "(\<exists>err. r = Inl err \<and> evs = [Call RewardsHash e (Some err)]) \<or>
         (r = Inr True \<and> evs = [Call RewardsHash e None]) \<or>
         (\<exists>err. r = Inr False \<and>
            evs = [Call RewardsHash e None, Call GetRewardsData e (Some err)]) \<or>
         (\<exists>err. r = Inr False \<and>
            evs = [Call RewardsHash e None, Call GetRewardsData e None,
                   Call SignRewards e (Some err)]) \<or>
         (r = Inr True \<and>
            evs = [Call RewardsHash e None, Call GetRewardsData e None,
                   Call SignRewards e None])"
  using assms
  by (auto simp: rewards_phase_def split: prod.splits sum.splits if_splits)

lemma saveState_shape:
  assumes "saveState e refusal f = (r, f')"
  shows "(r \<noteq> None \<and> f' = f) \<or> (r = None \<and> f' = Content (JSON_stringify_state e))"
  using assms
  by (auto simp: saveState_def writeFileSync_def split: file_state.splits option.splits)

text \<open>One iteration, by the way it ends.\<close>

lemma epoch_body_shape:
  assumes "epoch_body env e w = (s, evs, w')"
  obtains
    (uptime_threw) err uevs where "s = Throw err" "evs = uevs" "state_file w' = state_file w"
      "\<exists>x x'. uptime_phase env e x = (Inl err, uevs, x')"
  | (not_ended) uevs fc where "s = Break" "evs = uevs" "state_file w' = state_file w"
      "\<exists>x x'. uptime_phase env e x = (Inr (True, fc), uevs, x')"
  | (rewards_threw) err uevs revs fc where "s = Throw err" "evs = uevs @ revs"
      "state_file w' = state_file w"
      "\<exists>x x'. uptime_phase env e x = (Inr (False, fc), uevs, x')"
      "\<exists>x x'. rewards_phase env e x = (Inl err, revs, x')"
  | (rewards_failed) uevs revs fc where "s = Break" "evs = uevs @ revs"
      "state_file w' = state_file w"
      "\<exists>x x'. uptime_phase env e x = (Inr (False, fc), uevs, x')"
      "\<exists>x x'. rewards_phase env e x = (Inr False, revs, x')"
  | (completed) uevs revs r where "s = Continue" "evs = uevs @ revs @ [Call SaveState e r]"
      "\<exists>refusal. saveState e refusal (state_file w) = (r, state_file w')"
      "\<exists>x x'. uptime_phase env e x = (Inr (False, True), uevs, x')"
      "\<exists>x x'. rewards_phase env e x = (Inr True, revs, x')"
  | (vote_missing) uevs revs where "s = Continue" "evs = uevs @ revs"
      "state_file w' = state_file w"
      "\<exists>x x'. uptime_phase env e x = (Inr (False, False), uevs, x')"
      "\<exists>x x'. rewards_phase env e x = (Inr True, revs, x')"
  using assms unfolding epoch_body_def
  by (fastforce split: prod.splits sum.splits if_splits bool.splits)


lemmas phase_shapes = uptime_phase_shape rewards_phase_shape saveState_shape

lemma epoch_body_epochs:
  assumes "epoch_body env e w = (s, evs, w')" and "ev \<in> set evs"
  shows "\<exists>p r. ev = Call p e r"
  using assms(2)
  by (cases rule: epoch_body_shape [OF assms(1)]) (auto dest!: phase_shapes)

lemma epoch_body_first:
  assumes "epoch_body env e w = (s, evs, w')"
  shows "\<exists>r rest. evs = Call UptimeVoteHash e r # rest"
  by (cases rule: epoch_body_shape [OF assms(1)]) (auto dest!: phase_shapes)



lemma epoch_body_vote_failed_not_completed:
  assumes "epoch_body env e w = (s, evs, w')"
    and "Call SignUptimeVote e' (Some err) \<in> set evs"
  shows "completed_epochs evs = []"
  using assms(2)
  by (cases rule: epoch_body_shape [OF assms(1)])
    (auto dest!: phase_shapes simp: completed_epochs_def List.map_filter_simps)


lemma epoch_body_file:
  assumes "epoch_body env e w = (s, evs, w')"
  shows "(completed_epochs evs = [] \<or> completed_epochs evs = [e] \<and> s = Continue) \<and>
         (saved_epochs evs = [] \<or> saved_epochs evs = [e]) \<and>
         state_file w' = (if saved_epochs evs = [] then state_file w else Content (JSON_stringify_state e))"
  by (cases rule: epoch_body_shape [OF assms(1)])
    (auto dest!: phase_shapes simp: completed_epochs_def saved_epochs_def List.map_filter_simps)


lemma map_filter_append: "List.map_filter f (xs @ ys) = List.map_filter f xs @ List.map_filter f ys"
  by (simp add: List.map_filter_def)

lemma completed_epochs_append:
  "completed_epochs (xs @ ys) = completed_epochs xs @ completed_epochs ys"
  by (simp add: completed_epochs_def map_filter_append)

lemma saved_epochs_append: "saved_epochs (xs @ ys) = saved_epochs xs @ saved_epochs ys"
  by (simp add: saved_epochs_def map_filter_append)

lemma ops_at_append: "ops_at e (xs @ ys) = ops_at e xs @ ops_at e ys"
  by (simp add: ops_at_def map_filter_append)

lemma completed_epochs_mem:
  "k \<in> set (completed_epochs tr) \<Longrightarrow> \<exists>r. Call SaveState k r \<in> set tr"
proof (induction tr)
  case Nil
  then show ?case by (simp add: completed_epochs_def List.map_filter_simps)
next
  case (Cons ev tr)
  then show ?case
    by (cases ev) (auto simp: completed_epochs_def List.map_filter_simps split: if_splits)
qed

lemma completed_epochs_other:
  assumes "\<forall>ev \<in> set tr. \<exists>p e' r. ev = Call p e' r \<and> e' \<noteq> e"
  shows "e \<notin> set (completed_epochs tr)"
proof
  assume "e \<in> set (completed_epochs tr)"
  from completed_epochs_mem [OF this] assms show False by fastforce
qed

lemma saved_epochs_mem:
  "k \<in> set (saved_epochs tr) \<longleftrightarrow> Call SaveState k None \<in> set tr"
proof (induction tr)
  case Nil
  then show ?case by (simp add: saved_epochs_def List.map_filter_simps)
next
  case (Cons ev tr)
  then show ?case
    by (cases ev) (auto simp: saved_epochs_def List.map_filter_simps split: if_splits)
qed

lemma ops_at_other:
  assumes "\<And>ev. ev \<in> set tr \<Longrightarrow> event_epoch ev \<noteq> Some e"
  shows "ops_at e tr = []"
  using assms
proof (induction tr)
  case Nil
  then show ?case by (simp add: ops_at_def List.map_filter_simps)
next
  case (Cons ev tr)
  from Cons.prems [of ev] have "op_at e ev = None" by (cases ev) auto
  moreover from Cons have "ops_at e tr = []" by simp
  ultimately show ?case by (simp add: ops_at_def List.map_filter_simps)
qed

lemma scan_stop: "\<not> s \<le> cur \<Longrightarrow> scan env cur s w = (None, [], w)"
  by (subst scan.simps) simp

lemma scan_step:
  assumes "s \<le> cur" and "epoch_body env s w = (st, evs, w1)"
  shows "scan env cur s w =
     (case st of
        Continue \<Rightarrow> (fst (scan env cur (s + 1) w1), evs @ fst (snd (scan env cur (s + 1) w1)),
                     snd (snd (scan env cur (s + 1) w1)))
      | Break \<Rightarrow> (None, evs, w1)
      | Throw err \<Rightarrow> (Some err, evs, w1))"
  using assms
  by (subst scan.simps) (simp split: step.splits prod.splits)

text \<open>Every event of the loop belongs to an epoch between the start and the current one.\<close>

lemma scan_epochs:
  assumes "scan env cur s w = (r, tr, w')" and "ev \<in> set tr"
  shows "\<exists>p e r'. ev = Call p e r' \<and> s \<le> e \<and> e \<le> cur"
  using assms
proof (induction "nat (cur + 1 - s)" arbitrary: s w r tr w')
  case 0
  then have "\<not> s \<le> cur" by simp
  with "0.prems" show ?case by (simp add: scan_stop)
next
  case (Suc n)
  then have le: "s \<le> cur" by simp
  obtain st evs w1 where body: "epoch_body env s w = (st, evs, w1)"
    by (cases "epoch_body env s w") auto
  note step = scan_step [OF le body]
  show ?case
  proof (cases "ev \<in> set evs")
    case True
    with epoch_body_epochs [OF body] le show ?thesis by fastforce
  next
    case False
    with Suc.prems step have st: "st = Continue"
      and "ev \<in> set (fst (snd (scan env cur (s + 1) w1)))"
      by (auto split: step.splits)
    moreover have "n = nat (cur + 1 - (s + 1))" using Suc.hyps(2) by simp
    ultimately obtain p e r' where "ev = Call p e r'" "s + 1 \<le> e" "e \<le> cur"
      using Suc.hyps(1) [of "s + 1" w1 "fst (scan env cur (s + 1) w1)"
          "fst (snd (scan env cur (s + 1) w1))" "snd (snd (scan env cur (s + 1) w1))"]
      by auto
    then show ?thesis by auto
  qed
qed


lemma scan_induct' [case_names stop step]:
  assumes stop: "\<And>s w. \<not> s \<le> cur \<Longrightarrow> P s w"
    and step: "\<And>s w st evs w1. s \<le> cur \<Longrightarrow> epoch_body env s w = (st, evs, w1) \<Longrightarrow>
      (st = Continue \<Longrightarrow> P (s + 1) w1) \<Longrightarrow> P s w"
  shows "P s (w :: 'x world)"
proof (induction "nat (cur + 1 - s)" arbitrary: s w)
  case (0 s w)
  then have "\<not> s \<le> cur" by simp
  then show ?case by (rule stop)
next
  case (Suc n s w)
  then have le: "s \<le> cur" by simp
  obtain st evs w1 where body: "epoch_body env s w = (st, evs, w1)"
    by (cases "epoch_body env s w") auto
  have "n = nat (cur + 1 - (s + 1))" using Suc.hyps(2) by simp
  then have "P (s + 1) w1" by (rule Suc.hyps(1))
  with le body show ?case by (rule step)
qed

text \<open>
  The trace of the loop around the iteration of one epoch: what comes before belongs to
  earlier epochs, what comes after to later ones, and nothing comes after an iteration
  that did not run to its end.
\<close>

lemma scan_iteration:
  assumes "scan env cur s w = (r, tr, w')" and "ev \<in> set tr" and "event_epoch ev = Some e"
  shows "\<exists>pre st evs post w0 w1.
           tr = pre @ evs @ post \<and> epoch_body env e w0 = (st, evs, w1) \<and> ev \<in> set evs \<and>
           (\<forall>ev' \<in> set pre. \<exists>p e' r'. ev' = Call p e' r' \<and> e' < e) \<and>
           (\<forall>ev' \<in> set post. \<exists>p e' r'. ev' = Call p e' r' \<and> e < e') \<and>
           (st \<noteq> Continue \<longrightarrow> post = []) \<and> (st = Break \<longrightarrow> r = None)"
  using assms
proof (induction s w arbitrary: r tr w' rule: scan_induct' [where env = env and cur = cur])
  case (stop s w)
  then show ?case by (simp add: scan_stop)
next
  case (step s w st evs w1)
  note sc = scan_step [OF step.hyps(1,2)]
  obtain r2 tr2 w2 where rest: "scan env cur (s + 1) w1 = (r2, tr2, w2)"
    by (cases "scan env cur (s + 1) w1") auto
  have later: "\<And>ev'. ev' \<in> set tr2 \<Longrightarrow> \<exists>p e' r'. ev' = Call p e' r' \<and> s < e'"
    using scan_epochs [OF rest] by fastforce
  show ?case
  proof (cases "ev \<in> set evs")
    case True
    with epoch_body_epochs [OF step.hyps(2)] step.prems(3) have e: "e = s" by fastforce
    show ?thesis
    proof (cases "st = Continue")
      case True
      with sc rest step.prems(1) have "tr = [] @ evs @ tr2" by simp
      with \<open>ev \<in> set evs\<close> step.hyps(2) later e True show ?thesis
        by (intro exI [of _ "[]"] exI [of _ st] exI [of _ evs] exI [of _ tr2] exI [of _ w]
            exI [of _ w1]) auto
    next
      case False
      with sc step.prems(1) have "tr = [] @ evs @ []" and "st = Break \<longrightarrow> r = None"
        by (auto split: step.splits)
      with \<open>ev \<in> set evs\<close> step.hyps(2) e show ?thesis
        by (intro exI [of _ "[]"] exI [of _ st] exI [of _ evs] exI [of _ "[]"] exI [of _ w]
            exI [of _ w1]) auto
    qed
  next
    case False
    with sc step.prems(1,2) rest have st: "st = Continue" and tr: "tr = evs @ tr2"
      and ev: "ev \<in> set tr2" and r: "r = r2"
      by (auto split: step.splits)
    from later [OF ev] step.prems(3) have "s < e" by auto
    from step.IH [OF st rest ev step.prems(3)]
    obtain pre st' evs' post w0 w1' where d: "tr2 = pre @ evs' @ post"
      "epoch_body env e w0 = (st', evs', w1')" "ev \<in> set evs'"
      "\<forall>ev' \<in> set pre. \<exists>p e' r'. ev' = Call p e' r' \<and> e' < e"
      "\<forall>ev' \<in> set post. \<exists>p e' r'. ev' = Call p e' r' \<and> e < e'"
      "st' \<noteq> Continue \<longrightarrow> post = []" "st' = Break \<longrightarrow> r2 = None"
      by blast
    have "\<forall>ev' \<in> set (evs @ pre). \<exists>p e' r'. ev' = Call p e' r' \<and> e' < e"
      using d(4) epoch_body_epochs [OF step.hyps(2)] \<open>s < e\<close> by fastforce
    moreover have "tr = (evs @ pre) @ evs' @ post" using tr d(1) by simp
    ultimately show ?thesis using d(2,3,5,6,7) r
      by (intro exI [of _ "evs @ pre"] exI [of _ st'] exI [of _ evs'] exI [of _ post]
          exI [of _ w0] exI [of _ w1']) auto
  qed
qed

text \<open>
  The epochs completed by the loop increase, and so do those written to the file, which
  holds the last one written.
\<close>

lemma scan_file:
  assumes "scan env cur s w = (r, tr, w')"
  shows "sorted_wrt (<) (completed_epochs tr) \<and>
         sorted_wrt (<) (saved_epochs tr) \<and>
         state_file w' = (if saved_epochs tr = [] then state_file w
                          else Content (JSON_stringify_state (last (saved_epochs tr))))"
  using assms
proof (induction s w arbitrary: r tr w' rule: scan_induct' [where env = env and cur = cur])
  case (stop s w)
  then show ?case
    by (simp add: scan_stop completed_epochs_def saved_epochs_def List.map_filter_simps)
next
  case (step s w st evs w1)
  note sc = scan_step [OF step.hyps(1,2)]
  note body = epoch_body_file [OF step.hyps(2)]
  show ?case
  proof (cases "st = Continue")
    case False
    with sc step.prems have "tr = evs" "w' = w1" by (auto split: step.splits)
    with body False show ?thesis by auto
  next
    case True
    obtain r2 tr2 w2 where rest: "scan env cur (s + 1) w1 = (r2, tr2, w2)"
      by (cases "scan env cur (s + 1) w1") auto
    with sc True step.prems have tr: "tr = evs @ tr2" and w': "w' = w2" by auto
    note ih = step.IH [OF True rest]
    have later: "\<forall>k \<in> set (completed_epochs tr2). s < k"
      using scan_epochs [OF rest] completed_epochs_mem [of _ tr2] by fastforce
    have later': "\<forall>k \<in> set (saved_epochs tr2). s < k"
      using scan_epochs [OF rest] saved_epochs_mem [of _ tr2] by fastforce
    have 1: "sorted_wrt (<) (completed_epochs tr)"
      using body ih later by (auto simp: tr completed_epochs_append)
    have 2: "sorted_wrt (<) (saved_epochs tr)"
      using body ih later' by (auto simp: tr saved_epochs_append)
    have 3: "state_file w' = (if saved_epochs tr = [] then state_file w
                          else Content (JSON_stringify_state (last (saved_epochs tr))))"
      using body ih by (auto simp: tr w' saved_epochs_append split: if_splits)
    from 1 2 3 show ?thesis by blast
  qed
qed




section \<open>A run of checkAndSign\<close>

lemma loadState_eq:
  "loadState f =
     Inr (case f of
            Missing \<Rightarrow> default_state
          | Unreadable \<Rightarrow> default_state
          | Content s \<Rightarrow> (case JSON_parse s of Inl err \<Rightarrow> default_state | Inr v \<Rightarrow> v))"
  by (cases f)
    (simp_all add: loadState_def loadState_try_def existsSync_def readFileSync_def
      split: sum.splits)

lemma get_lastCompletedEpoch_state:
  "get_lastCompletedEpoch (JObject [(js_str ''lastCompletedEpoch'', v)]) = Inr (Some v)"
  by (simp add: get_lastCompletedEpoch_def)

lemma integer_value_0: "integer_value n 0 = Some n"
  by (simp add: integer_value_def)

lemma persisted_checkpoint_stringify:
  "persisted_checkpoint (Content (JSON_stringify_state n)) = Some n"
  by (simp add: persisted_checkpoint_def loadState_eq JSON_parse_stringify
      get_lastCompletedEpoch_state integer_value_0)

lemma persisted_checkpoint_Missing: "persisted_checkpoint Missing = Some (- 1)"
  by (simp add: persisted_checkpoint_def loadState_eq default_state_def
      get_lastCompletedEpoch_state integer_value_0)

lemma resume_point_checkpoint:
  "persisted_checkpoint f = Some k \<Longrightarrow> resume_point f = Some (k + 1)"
  by (auto simp: persisted_checkpoint_def resume_point_def plus_one_def
      split: sum.splits option.splits json.splits)

lemma startEpoch_resume:
  assumes "loadState f = Inr state" and "startEpoch state cur = Inr (Some (Num s))"
  shows "\<exists>n. resume_point f = Some n \<and> s = max n (cur - 4)"
  using assms
  by (auto simp: startEpoch_def resume_point_def Math_max_def
      split: sum.splits option.splits js_number.splits)

lemma resume_startEpoch:
  assumes "loadState f = Inr state" and "resume_point f = Some n"
  shows "startEpoch state cur = Inr (Some (Num (max n (cur - 4))))"
  using assms
  by (auto simp: startEpoch_def resume_point_def Math_max_def
      split: sum.splits option.splits js_number.splits)

lemma checkAndSign_scan:
  assumes "initializeFlareSystemsManager env (ext w) = (Inr u, x1)"
    and "getCurrentRewardEpochId env x1 = (Inr cur, x2)"
    and "resume_point (state_file w) = Some n"
    and "scan env cur (max n (cur - 4)) (w\<lparr>ext := x2\<rparr>) = (r, tr, w')"
  shows "checkAndSign env w =
           (Returned, tr @ (case r of None \<Rightarrow> [] | Some err \<Rightarrow> [ErrorLogged err]), w')"
proof -
  obtain state where ld: "loadState (state_file w) = Inr state"
    using loadState_eq [of "state_file w"] by blast
  from resume_startEpoch [OF ld assms(3)] assms(1,2,4) ld show ?thesis
    by (simp add: checkAndSign_def checkAndSign_try_def split: option.splits)
qed

text \<open>A run either makes no call at all and leaves the file alone, or it is the loop.\<close>

lemma checkAndSign_cases [case_names idle scanned]:
  obtains (idle) tr w' where "checkAndSign env w = (Returned, tr, w')"
      "state_file w' = state_file w" "tr = [] \<or> (\<exists>err. tr = [ErrorLogged err])"
  | (scanned) u x1 cur x2 n r tr w' where
      "initializeFlareSystemsManager env (ext w) = (Inr u, x1)"
      "getCurrentRewardEpochId env x1 = (Inr cur, x2)"
      "resume_point (state_file w) = Some n"
      "scan env cur (max n (cur - 4)) (w\<lparr>ext := x2\<rparr>) = (r, tr, w')"
      "checkAndSign env w =
         (Returned, tr @ (case r of None \<Rightarrow> [] | Some err \<Rightarrow> [ErrorLogged err]), w')"
proof -
  obtain i x1 where i: "initializeFlareSystemsManager env (ext w) = (i, x1)"
    by (cases "initializeFlareSystemsManager env (ext w)") auto
  obtain c x2 where c: "getCurrentRewardEpochId env x1 = (c, x2)"
    by (cases "getCurrentRewardEpochId env x1") auto
  obtain state where ld: "loadState (state_file w) = Inr state"
    using loadState_eq [of "state_file w"] by blast
  show thesis
  proof (cases i)
    case (Inl err)
    with i show thesis
      by (intro idle [of "[ErrorLogged err]" "w\<lparr>ext := x1\<rparr>"])
        (simp_all add: checkAndSign_def checkAndSign_try_def)
  next
    case (Inr u)
    note u = this
    show thesis
    proof (cases c)
      case (Inl err)
      with i u c show thesis
        by (intro idle [of "[ErrorLogged err]" "w\<lparr>ext := x2\<rparr>"])
          (simp_all add: checkAndSign_def checkAndSign_try_def)
    next
      case (Inr cur)
      note cur = this
      show thesis
      proof (cases "resume_point (state_file w)")
        case (Some n)
        obtain r tr w' where sc: "scan env cur (max n (cur - 4)) (w\<lparr>ext := x2\<rparr>) = (r, tr, w')"
          by (cases "scan env cur (max n (cur - 4)) (w\<lparr>ext := x2\<rparr>)") auto
        from i [unfolded u] c [unfolded cur] Some sc
          checkAndSign_scan [OF i [unfolded u] c [unfolded cur] Some sc]
        show thesis by (rule scanned)
      next
        case None
        have "\<exists>tr. checkAndSign env w = (Returned, tr, w\<lparr>ext := x2\<rparr>) \<and>
                 (tr = [] \<or> (\<exists>err. tr = [ErrorLogged err]))"
          using i u c cur ld None startEpoch_resume [OF ld, of cur]
          by (cases "startEpoch state cur")
            (auto simp: checkAndSign_def checkAndSign_try_def
              split: option.splits js_number.splits)
        then show thesis using idle [of _ "w\<lparr>ext := x2\<rparr>"] by auto
      qed
    qed
  qed
qed

lemma checkAndSign_epochs:
  assumes "Call p e r \<in> set (trace_of (checkAndSign env w))"
  shows "\<exists>n cur. resume_point (state_file w) = Some n \<and> max n (cur - 4) \<le> e \<and> e \<le> cur"
proof (cases env w rule: checkAndSign_cases)
  case (idle tr w')
  with assms show ?thesis by (auto simp: trace_of_def)
next
  case (scanned u x1 cur x2 n r' tr w')
  with assms have "Call p e r \<in> set tr"
    by (auto simp: trace_of_def split: option.splits)
  from scan_epochs [OF scanned(4) this] scanned(3) show ?thesis by auto
qed

lemma includes_str_iff: "includes_str s t \<longleftrightarrow> (\<exists>ps ss. s = ps @ t @ ss)"
proof (induction s)
  case Nil
  then show ?case by auto
next
  case (Cons c cs)
  show ?case
  proof
    assume "includes_str (c # cs) t"
    then consider "take (length t) (c # cs) = t" | "includes_str cs t" by auto
    then show "\<exists>ps ss. c # cs = ps @ t @ ss"
    proof cases
      case 1
      then have "c # cs = [] @ t @ drop (length t) (c # cs)"
        by (metis append_Nil append_take_drop_id)
      then show ?thesis by blast
    next
      case 2
      with Cons.IH obtain ps ss where "cs = ps @ t @ ss" by blast
      then have "c # cs = (c # ps) @ t @ ss" by simp
      then show ?thesis by blast
    qed
  next
    assume "\<exists>ps ss. c # cs = ps @ t @ ss"
    then obtain ps ss where d: "c # cs = ps @ t @ ss" by blast
    show "includes_str (c # cs) t"
    proof (cases ps)
      case Nil
      with d have "take (length t) (c # cs) = t" by simp
      then show ?thesis by simp
    next
      case (Cons p ps')
      with d have "cs = ps' @ t @ ss" by simp
      with Cons.IH show ?thesis by auto
    qed
  qed
qed

lemma epoch_not_ended_iff:
  "epoch_not_ended err \<longleftrightarrow>
     (\<exists>s ps ss. (reason err = Some s \<or> message err = Some s) \<and>
        s = ps @ ''epoch not ended'' @ ss)"
  by (cases err)
    (auto simp: epoch_not_ended_def includes_str_iff split: option.splits)

lemma sorted_wrt_less_last_Max:
  fixes xs :: "int list"
  assumes "sorted_wrt (<) xs" and "xs \<noteq> []"
  shows "last xs = Max (set xs)"
  using assms
proof (induction xs)
  case Nil
  then show ?case by simp
next
  case (Cons x xs)
  show ?case
  proof (cases "xs = []")
    case True
    then show ?thesis by simp
  next
    case False
    with Cons have l: "last xs = Max (set xs)" by simp
    have "x < hd xs" using Cons.prems False by (cases xs) auto
    moreover have "hd xs \<le> Max (set xs)" using False by simp
    ultimately have "x < Max (set xs)" by simp
    with l False show ?thesis by (simp add: max_def)
  qed
qed

lemma checkAndSign_iteration:
  assumes "Call p e r \<in> set (trace_of (checkAndSign env w))"
  shows "\<exists>pre st evs post w0 w1 res.
           trace_of (checkAndSign env w) = pre @ evs @ post @
             (case res of None \<Rightarrow> [] | Some err \<Rightarrow> [ErrorLogged err]) \<and>
           epoch_body env e w0 = (st, evs, w1) \<and> Call p e r \<in> set evs \<and>
           (\<forall>ev' \<in> set pre. \<exists>p e' r'. ev' = Call p e' r' \<and> e' < e) \<and>
           (\<forall>ev' \<in> set post. \<exists>p e' r'. ev' = Call p e' r' \<and> e < e') \<and>
           (st \<noteq> Continue \<longrightarrow> post = []) \<and> (st = Break \<longrightarrow> res = None)"
proof (cases env w rule: checkAndSign_cases)
  case (idle tr w')
  with assms show ?thesis by (auto simp: trace_of_def)
next
  case (scanned u x1 cur x2 n res tr w')
  with assms have "Call p e r \<in> set tr"
    by (auto simp: trace_of_def split: option.splits)
  moreover have "event_epoch (Call p e r) = Some e" by simp
  ultimately have "\<exists>pre st evs post w0 w1.
           tr = pre @ evs @ post \<and> epoch_body env e w0 = (st, evs, w1) \<and>
           Call p e r \<in> set evs \<and>
           (\<forall>ev' \<in> set pre. \<exists>p e' r'. ev' = Call p e' r' \<and> e' < e) \<and>
           (\<forall>ev' \<in> set post. \<exists>p e' r'. ev' = Call p e' r' \<and> e < e') \<and>
           (st \<noteq> Continue \<longrightarrow> post = []) \<and> (st = Break \<longrightarrow> res = None)"
    by (rule scan_iteration [OF scanned(4)])
  then obtain pre st evs post w0 w1 where d: "tr = pre @ evs @ post"
    "epoch_body env e w0 = (st, evs, w1)" "Call p e r \<in> set evs"
    "\<forall>ev' \<in> set pre. \<exists>p e' r'. ev' = Call p e' r' \<and> e' < e"
    "\<forall>ev' \<in> set post. \<exists>p e' r'. ev' = Call p e' r' \<and> e < e'"
    "st \<noteq> Continue \<longrightarrow> post = []" "st = Break \<longrightarrow> res = None"
    by (elim exE conjE) (rule that)
  have "trace_of (checkAndSign env w) = pre @ evs @ post @
             (case res of None \<Rightarrow> [] | Some err \<Rightarrow> [ErrorLogged err])"
    using scanned(5) d(1) by (simp add: trace_of_def)
  with d(2-7) show ?thesis
    by (intro exI [of _ pre] exI [of _ st] exI [of _ evs] exI [of _ post] exI [of _ w0]
        exI [of _ w1] exI [of _ res]) auto
qed

lemma checkAndSign_file:
  "sorted_wrt (<) (completed_epochs (trace_of (checkAndSign env w))) \<and>
   sorted_wrt (<) (saved_epochs (trace_of (checkAndSign env w))) \<and>
   state_file (world_of (checkAndSign env w)) =
     (if saved_epochs (trace_of (checkAndSign env w)) = [] then state_file w
      else Content (JSON_stringify_state (last (saved_epochs (trace_of (checkAndSign env w))))))"
proof (cases env w rule: checkAndSign_cases)
  case (idle tr w')
  then show ?thesis
    by (auto simp: trace_of_def world_of_def completed_epochs_def saved_epochs_def
        List.map_filter_simps)
next
  case (scanned u x1 cur x2 n res tr w')
  have c: "completed_epochs (trace_of (checkAndSign env w)) = completed_epochs tr"
    and s: "saved_epochs (trace_of (checkAndSign env w)) = saved_epochs tr"
    using scanned(5)
    by (auto simp: trace_of_def completed_epochs_def saved_epochs_def map_filter_append
        List.map_filter_simps split: option.splits)
  have w': "world_of (checkAndSign env w) = w'" using scanned(5) by (simp add: world_of_def)
  from scan_file [OF scanned(4)] show ?thesis unfolding c s w' by simp
qed

lemma runWithRetry_loop_exhausted:
  "runWithRetry_loop routine 3 w = ([MaxRetriesReached], w)"
  by (subst runWithRetry_loop.simps) (simp add: MAX_RETRIES_def)

lemma runWithRetry_loop_step:
  assumes "retries < 3" and "routine w = (r, t, w')"
  shows "runWithRetry_loop routine retries w =
     (case r of
        Returned \<Rightarrow> ([Invoked t Returned], w')
      | Propagated error \<Rightarrow>
          (Invoked t (Propagated error) # AttemptFailed (retries + 1)
             # (if retries + 1 < 3 then [Waited 30000] else [])
             @ fst (runWithRetry_loop routine (retries + 1) w'),
           snd (runWithRetry_loop routine (retries + 1) w')))"
  using assms
  by (subst runWithRetry_loop.simps)
    (simp add: MAX_RETRIES_def RETRY_DELAY_def split: outcome.splits prod.splits)


section \<open>Successive runs\<close>

text \<open>A run is the part before the loop, followed by the loop.\<close>

lemma checkAndSign_try_enter_loop:
  "checkAndSign_try env w =
     (case enter_loop env w of
        Inl (c, w1) \<Rightarrow> (c, [], w1)
      | Inr (cur, start, w1) \<Rightarrow>
          (case scan env cur start w1 of
             (None, evs, w') \<Rightarrow> (Completed, evs, w')
           | (Some err, evs, w') \<Rightarrow> (Raised err, evs, w')))"
  by (simp add: checkAndSign_try_def enter_loop_def
      split: prod.splits sum.splits option.splits js_number.splits)

lemma modelled_run:
  assumes "fst (checkAndSign_try env w) = Unmodelled"
  shows "\<not> modelled (state_file w)"
  using assms
  by (auto simp: checkAndSign_try_def modelled_def startEpoch_def
      split: prod.splits sum.splits option.splits js_number.splits)










section \<open>The claims\<close>

text \<open>
  C1. With the checkpoint \<open>last_completed\<close> in the state file and the current reward
  epoch \<open>current\<close> read from the contract, the scan starts at
  \<open>max (last_completed + 1) (current - 4)\<close>: that is the value of \<^verbatim>\<open>startEpoch\<close>, every
  call of the run belongs to an epoch from there to \<open>current\<close>, and when the start is
  not beyond \<open>current\<close> the first call reads the uptime vote hash of that epoch. When
  \<open>last_completed + 1 > current\<close> the loop body never runs: the run makes no call,
  and leaves the state file as it was.
\<close>

theorem scan_start:
  assumes init: "initializeFlareSystemsManager env (ext w) = (Inr u, x1)"
    and cur: "getCurrentRewardEpochId env x1 = (Inr current, x2)"
    and cp: "persisted_checkpoint (state_file w) = Some last_completed"
  shows "(\<exists>state. loadState (state_file w) = Inr state \<and>
            startEpoch state current = Inr (Some (Num (max (last_completed + 1) (current - 4))))) \<and>
         (\<forall>ev \<in> set (trace_of (checkAndSign env w)). \<forall>e. event_epoch ev = Some e \<longrightarrow>
            max (last_completed + 1) (current - 4) \<le> e \<and> e \<le> current) \<and>
         (max (last_completed + 1) (current - 4) \<le> current \<longrightarrow>
            (\<exists>r rest. trace_of (checkAndSign env w) =
               Call UptimeVoteHash (max (last_completed + 1) (current - 4)) r # rest)) \<and>
         (current < last_completed + 1 \<longrightarrow> checkAndSign env w = (Returned, [], w\<lparr>ext := x2\<rparr>))"
proof -
  let ?s = "max (last_completed + 1) (current - 4)"
  note rp = resume_point_checkpoint [OF cp]
  obtain state where ld: "loadState (state_file w) = Inr state"
    using loadState_eq [of "state_file w"] by blast
  obtain r tr w' where sc: "scan env current ?s (w\<lparr>ext := x2\<rparr>) = (r, tr, w')"
    by (cases "scan env current ?s (w\<lparr>ext := x2\<rparr>)") auto
  note run = checkAndSign_scan [OF init cur rp sc]
  have 1: "\<exists>state. loadState (state_file w) = Inr state \<and>
            startEpoch state current = Inr (Some (Num ?s))"
    using ld resume_startEpoch [OF ld rp] by blast
  have 2: "\<forall>ev \<in> set (trace_of (checkAndSign env w)). \<forall>e. event_epoch ev = Some e \<longrightarrow>
            ?s \<le> e \<and> e \<le> current"
  proof (intro ballI allI impI)
    fix ev e
    assume "ev \<in> set (trace_of (checkAndSign env w))" and e: "event_epoch ev = Some e"
    with run have "ev \<in> set tr" by (auto simp: trace_of_def split: option.splits)
    from scan_epochs [OF sc this] e show "?s \<le> e \<and> e \<le> current" by auto
  qed
  have 3: "\<exists>r rest. trace_of (checkAndSign env w) = Call UptimeVoteHash ?s r # rest"
    if le: "?s \<le> current"
  proof -
    obtain st evs w1 where body: "epoch_body env ?s (w\<lparr>ext := x2\<rparr>) = (st, evs, w1)"
      by (cases "epoch_body env ?s (w\<lparr>ext := x2\<rparr>)") auto
    from epoch_body_first [OF body] obtain r0 rest where "evs = Call UptimeVoteHash ?s r0 # rest"
      by blast
    with scan_step [OF le body] sc run show ?thesis
      by (auto simp: trace_of_def split: step.splits)
  qed
  have 4: "checkAndSign env w = (Returned, [], w\<lparr>ext := x2\<rparr>)" if "current < last_completed + 1"
  proof -
    from that have "\<not> ?s \<le> current" by simp
    from scan_stop [OF this, where env = env and w = "w\<lparr>ext := x2\<rparr>"] sc run
    show ?thesis by simp
  qed
  from 1 2 3 4 show ?thesis by blast
qed

theorem scan_start_witness:
  "persisted_checkpoint Missing = Some (- 1) \<and>
   (\<exists>r rest. trace_of (checkAndSign scenario_A \<lparr>state_file = Missing, ext = ()\<rparr>) =
      Call UptimeVoteHash 0 r # rest) \<and>
   persisted_checkpoint (Content (JSON_stringify_state 2)) = Some 2 \<and>
   checkAndSign scenario_B \<lparr>state_file = Content (JSON_stringify_state 2), ext = ()\<rparr> =
     (Returned, [], \<lparr>state_file = Content (JSON_stringify_state 2), ext = ()\<rparr>)"
proof -
  have a: "initializeFlareSystemsManager scenario_A (ext \<lparr>state_file = Missing, ext = ()\<rparr>) = (Inr (), ())"
    "getCurrentRewardEpochId scenario_A () = (Inr 0, ())"
    "persisted_checkpoint (state_file \<lparr>state_file = Missing, ext = ()\<rparr>) = Some (- 1)"
    by (simp_all add: scenario_A_def fixed_env_def persisted_checkpoint_Missing)
  have b: "initializeFlareSystemsManager scenario_B
        (ext \<lparr>state_file = Content (JSON_stringify_state 2), ext = ()\<rparr>) = (Inr (), ())"
    "getCurrentRewardEpochId scenario_B () = (Inr 2, ())"
    "persisted_checkpoint (state_file \<lparr>state_file = Content (JSON_stringify_state 2), ext = ()\<rparr>)
       = Some 2"
    by (simp_all add: scenario_B_def fixed_env_def persisted_checkpoint_stringify)
  from scan_start [OF a] scan_start [OF b] a(3) b(3) show ?thesis by simp
qed









text \<open>
  C5, as the code has it. \<^verbatim>\<open>loadState\<close> never throws. It returns the default
  \<^verbatim>\<open>{ lastCompletedEpoch: -1 }\<close> when the file is missing, when it cannot be read and
  when its text is not JSON. Text that is JSON is returned as parsed, whatever value it
  is: nothing checks that it is a state.
\<close>

theorem loadState_returns:
  "(\<exists>v. loadState f = Inr v) \<and>
   loadState Missing = Inr default_state \<and>
   loadState Unreadable = Inr default_state \<and>
   (\<forall>s. loadState (Content s) =
      (case JSON_parse s of Inl err \<Rightarrow> Inr default_state | Inr v \<Rightarrow> Inr v))"
  by (simp add: loadState_eq split: sum.splits)

text \<open>
  C5 as stated fails: the text \<^verbatim>\<open>{}\<close> is malformed in the sense of the claim, and
  \<^verbatim>\<open>loadState\<close> returns the empty object for it, not the default.
\<close>

theorem loadState_malformed_counterexample:
  "malformed ''{}'' \<and> loadState (Content ''{}'') = Inr (JObject []) \<and> JObject [] \<noteq> default_state"
  by code_simp

text \<open>
  C6. After a run, let the state file hold the checkpoint \<open>checkpoint\<close>, and let a second
  run start from the world the first one left. Every call of the second run, be it a
  read, a submission or a save, belongs to an epoch after \<open>checkpoint\<close>: nothing is
  submitted again for an epoch the checkpoint covers.
\<close>

theorem no_resubmission:
  assumes "persisted_checkpoint (state_file (world_of (checkAndSign env w))) = Some checkpoint"
    and "Call p e r \<in> set (trace_of (checkAndSign env (world_of (checkAndSign env w))))"
  shows "checkpoint < e"
proof -
  from checkAndSign_epochs [OF assms(2)] obtain n cur where
    "resume_point (state_file (world_of (checkAndSign env w))) = Some n" "max n (cur - 4) \<le> e"
    by blast
  with resume_point_checkpoint [OF assms(1)] show ?thesis by simp
qed

theorem no_resubmission_witness:
  "persisted_checkpoint (state_file (world_of (checkAndSign scenario_C
      \<lparr>state_file = Content (JSON_stringify_state 0), ext = ()\<rparr>))) = Some 0 \<and>
   Call SignUptimeVote 1 (Some not_ended_error) \<in> set (trace_of (checkAndSign scenario_C
      (world_of (checkAndSign scenario_C \<lparr>state_file = Content (JSON_stringify_state 0), ext = ()\<rparr>)))) \<and>
   (0 :: int) < 1"
proof -
  have a: "persisted_checkpoint (state_file (world_of (checkAndSign scenario_C
      \<lparr>state_file = Content (JSON_stringify_state 0), ext = ()\<rparr>))) = Some 0"
    by code_simp
  have b: "Call SignUptimeVote 1 (Some not_ended_error) \<in> set (trace_of (checkAndSign scenario_C
      (world_of (checkAndSign scenario_C \<lparr>state_file = Content (JSON_stringify_state 0), ext = ()\<rparr>))))"
    by code_simp
  from no_resubmission [OF a b] a b show ?thesis by simp
qed

text \<open>
  C7, as the code has it. With the checkpoint 2 in the state file and the current reward
  epoch 2, the scan starts at epoch 3: the run makes no call at all, whatever the hashes
  of epoch 2 are. Nothing is submitted, \<^verbatim>\<open>saveState\<close> is not called, and the state
  file stays as it is, with the checkpoint 2.
\<close>

theorem scenario_B_no_save:
  assumes "initializeFlareSystemsManager env (ext w) = (Inr u, x1)"
    and "getCurrentRewardEpochId env x1 = (Inr 2, x2)"
    and "persisted_checkpoint (state_file w) = Some 2"
  shows "checkAndSign env w = (Returned, [], w\<lparr>ext := x2\<rparr>) \<and>
         state_file (world_of (checkAndSign env w)) = state_file w \<and>
         persisted_checkpoint (state_file (world_of (checkAndSign env w))) = Some 2"
proof -
  have "\<not> max (2 + 1) (2 - 4) \<le> (2 :: int)" by simp
  from scan_stop [OF this, where env = env and w = "w\<lparr>ext := x2\<rparr>"]
    checkAndSign_scan [OF assms(1,2) resume_point_checkpoint [OF assms(3)]]
  have "checkAndSign env w = (Returned, [], w\<lparr>ext := x2\<rparr>)" by simp
  with assms(3) show ?thesis by (simp add: world_of_def)
qed

theorem scenario_B_no_save_witness:
  "checkAndSign scenario_B \<lparr>state_file = Content (JSON_stringify_state 2), ext = ()\<rparr> =
     (Returned, [], \<lparr>state_file = Content (JSON_stringify_state 2), ext = ()\<rparr>) \<and>
   persisted_checkpoint (state_file (world_of (checkAndSign scenario_B
     \<lparr>state_file = Content (JSON_stringify_state 2), ext = ()\<rparr>))) = Some 2"
proof -
  have b: "initializeFlareSystemsManager scenario_B
        (ext \<lparr>state_file = Content (JSON_stringify_state 2), ext = ()\<rparr>) = (Inr (), ())"
    "getCurrentRewardEpochId scenario_B () = (Inr 2, ())"
    "persisted_checkpoint (state_file \<lparr>state_file = Content (JSON_stringify_state 2), ext = ()\<rparr>)
       = Some 2"
    by (simp_all add: scenario_B_def fixed_env_def persisted_checkpoint_stringify)
  from scenario_B_no_save [OF b] show ?thesis
    by (simp add: world_of_def persisted_checkpoint_stringify)
qed

text \<open>
  C7 as stated fails: in scenario B both hashes of epoch 2 are there, and the run does
  not call \<^verbatim>\<open>saveState\<close>, so the file is not saved again.
\<close>

theorem scenario_B_counterexample:
  "persisted_checkpoint (Content (JSON_stringify_state 2)) = Some 2 \<and>
   getCurrentRewardEpochId scenario_B () = (Inr 2, ()) \<and>
   uptimeVoteHash scenario_B 2 () = (Inr (Some ''0xa1''), ()) \<and>
   isHash (ZERO_BYTES32 scenario_B) (Some ''0xa1'') \<and>
   rewardsHash scenario_B 2 () = (Inr (Some ''0xb2''), ()) \<and>
   isHash (ZERO_BYTES32 scenario_B) (Some ''0xb2'') \<and>
   completed_epochs (trace_of (checkAndSign scenario_B
     \<lparr>state_file = Content (JSON_stringify_state 2), ext = ()\<rparr>)) = []"
  by code_simp

text \<open>
  C8. \<^verbatim>\<open>checkAndSign\<close> never hands an error to its caller, whatever the collaborators
  and the state file do: it returns, and when an error was raised inside the \<^verbatim>\<open>try\<close>,
  the report of that error is the last thing the run does.
\<close>

theorem checkAndSign_returns:
  "fst (checkAndSign env w) = Returned \<and>
   (\<forall>err. fst (checkAndSign_try env w) = Raised err \<longrightarrow>
      trace_of (checkAndSign env w) \<noteq> [] \<and> last (trace_of (checkAndSign env w)) = ErrorLogged err)"
  by (cases "checkAndSign_try env w" rule: prod_cases3)
    (auto simp: checkAndSign_def trace_of_def split: completion.splits)

theorem checkAndSign_returns_witness:
  "fst (checkAndSign_try throwing_env \<lparr>state_file = Content (JSON_stringify_state 2), ext = ()\<rparr>)
     = Raised (JsError None (Some ''no provider'')) \<and>
   fst (checkAndSign throwing_env \<lparr>state_file = Content (JSON_stringify_state 2), ext = ()\<rparr>)
     = Returned \<and>
   last (trace_of (checkAndSign throwing_env
      \<lparr>state_file = Content (JSON_stringify_state 2), ext = ()\<rparr>))
     = ErrorLogged (JsError None (Some ''no provider''))"
proof -
  have raised:
    "fst (checkAndSign_try throwing_env \<lparr>state_file = Content (JSON_stringify_state 2), ext = ()\<rparr>)
       = Raised (JsError None (Some ''no provider''))"
    by code_simp
  with checkAndSign_returns
    [of throwing_env "\<lparr>state_file = Content (JSON_stringify_state 2), ext = ()\<rparr>"]
  show ?thesis by blast
qed

text \<open>
  C9. Whatever the routine does, \<^verbatim>\<open>runWithRetry\<close> calls it at most three times, each time
  in the world the call before left. Name what the routine returns the first time it is
  called, what it returns the second time, in the world the first call left, and the
  third time. If the first call returns, \<^verbatim>\<open>runWithRetry\<close> makes that call and nothing
  else. If it throws, the failed attempt is reported, 30000 milliseconds are waited and
  the second call is made; if that throws too, the same happens with the third; and if
  the third throws, the failed attempt and the end of the retries are reported, there is
  no wait and no fourth call, and \<^verbatim>\<open>runWithRetry\<close> returns, in the world the third call
  left.
\<close>

theorem runWithRetry_loop_attempts:
  assumes "routine w = (r1, t1, w1)" and "routine w1 = (r2, t2, w2)"
    and "routine w2 = (r3, t3, w3)"
  shows "runWithRetry_loop routine 0 w =
     (case r1 of
        Returned \<Rightarrow> ([Invoked t1 Returned], w1)
      | Propagated e1 \<Rightarrow>
          (case r2 of
             Returned \<Rightarrow>
               ([Invoked t1 (Propagated e1), AttemptFailed 1, Waited 30000,
                 Invoked t2 Returned], w2)
           | Propagated e2 \<Rightarrow>
               (case r3 of
                  Returned \<Rightarrow>
                    ([Invoked t1 (Propagated e1), AttemptFailed 1, Waited 30000,
                      Invoked t2 (Propagated e2), AttemptFailed 2, Waited 30000,
                      Invoked t3 Returned], w3)
                | Propagated e3 \<Rightarrow>
                    ([Invoked t1 (Propagated e1), AttemptFailed 1, Waited 30000,
                      Invoked t2 (Propagated e2), AttemptFailed 2, Waited 30000,
                      Invoked t3 (Propagated e3), AttemptFailed 3, MaxRetriesReached], w3)))) \<and>
     length (filter is_invoked (fst (runWithRetry_loop routine 0 w))) \<le> 3"
proof -
  have s3: "runWithRetry_loop routine 2 w2 =
      (case r3 of Returned \<Rightarrow> ([Invoked t3 Returned], w3)
       | Propagated e \<Rightarrow> ([Invoked t3 (Propagated e), AttemptFailed 3, MaxRetriesReached], w3))"
    using runWithRetry_loop_step [of 2 routine w2, OF _ assms(3)]
    by (simp add: runWithRetry_loop_exhausted [unfolded numeral_3_eq_3] numeral_2_eq_2
          numeral_3_eq_3 split: outcome.splits)
  have s2: "runWithRetry_loop routine 1 w1 =
      (case r2 of Returned \<Rightarrow> ([Invoked t2 Returned], w2)
       | Propagated e \<Rightarrow>
           ([Invoked t2 (Propagated e), AttemptFailed 2, Waited 30000]
              @ fst (runWithRetry_loop routine 2 w2),
            snd (runWithRetry_loop routine 2 w2)))"
    using runWithRetry_loop_step [of 1 routine w1, OF _ assms(2)]
    by (simp add: numeral_2_eq_2 split: outcome.splits)
  have s1: "runWithRetry_loop routine 0 w =
      (case r1 of Returned \<Rightarrow> ([Invoked t1 Returned], w1)
       | Propagated e \<Rightarrow>
           ([Invoked t1 (Propagated e), AttemptFailed 1, Waited 30000]
              @ fst (runWithRetry_loop routine 1 w1),
            snd (runWithRetry_loop routine 1 w1)))"
    using runWithRetry_loop_step [of 0 routine w, OF _ assms(1)]
    by (simp split: outcome.splits)
  show ?thesis
    unfolding s1 s2 s3
    by (cases r1; cases r2; cases r3) simp_all
qed

theorem runWithRetry_loop_attempts_witness:
  "runWithRetry_loop (failing_routine 3) 0 0 =
     ([Invoked [0] (Propagated generic_error), AttemptFailed 1, Waited 30000,
       Invoked [1] (Propagated generic_error), AttemptFailed 2, Waited 30000,
       Invoked [2] (Propagated generic_error), AttemptFailed 3, MaxRetriesReached], 3) \<and>
   runWithRetry_loop (failing_routine 1) 0 0 =
     ([Invoked [0] (Propagated generic_error), AttemptFailed 1, Waited 30000,
       Invoked [1] Returned], 2) \<and>
   runWithRetry_loop (failing_routine 0) 0 0 = ([Invoked [0] Returned], 1)"
proof -
  have a: "failing_routine 3 0 = (Propagated generic_error, [0], 1)"
    "failing_routine 3 1 = (Propagated generic_error, [1], 2)"
    "failing_routine 3 2 = (Propagated generic_error, [2], 3)"
    and b: "failing_routine 1 0 = (Propagated generic_error, [0], 1)"
    "failing_routine 1 1 = (Returned, [1], 2)" "failing_routine 1 2 = (Returned, [2], 3)"
    and c: "failing_routine 0 0 = (Returned, [0], 1)"
    "failing_routine 0 1 = (Returned, [1], 2)" "failing_routine 0 2 = (Returned, [2], 3)"
    by (simp_all add: failing_routine_def)
  from runWithRetry_loop_attempts [OF a] runWithRetry_loop_attempts [OF b]
    runWithRetry_loop_attempts [OF c]
  show ?thesis by simp
qed

text \<open>
  C10. An epoch at or below the checkpoint need not be fully signed. Let the submission
  of the uptime vote for epoch \<open>e\<close> fail in a run with an error that does not say that
  the epoch has not ended, and let the same run save a later epoch \<open>e'\<close>. Then \<open>e\<close> is
  not among the epochs the run completed, the state file holds a checkpoint of \<open>e'\<close> or
  more after the run, and no run that starts from that file, with whatever
  collaborators, makes a call for epoch \<open>e\<close> again. Such a run exists: with the
  checkpoint 4 and the current epoch 6, the uptime vote of epoch 5 cannot be signed, the
  rewards of epoch 5 and both hashes of epoch 6 are there, and the checkpoint 6 is
  saved.
\<close>

theorem unsigned_epoch_left_behind:
  assumes "Call SignUptimeVote e (Some err) \<in> set (trace_of (checkAndSign env w))"
    and "\<not> epoch_not_ended err"
    and "Call SaveState e' None \<in> set (trace_of (checkAndSign env w))"
    and "e < e'"
  shows "e \<notin> set (completed_epochs (trace_of (checkAndSign env w))) \<and>
         (\<exists>k. persisted_checkpoint (state_file (world_of (checkAndSign env w))) = Some k \<and> e' \<le> k) \<and>
         (\<forall>(env' :: 'y collaborators) x p r. Call p e r \<notin> set (trace_of (checkAndSign env'
              \<lparr>state_file = state_file (world_of (checkAndSign env w)), ext = x\<rparr>)))"
proof -
  let ?tr = "trace_of (checkAndSign env w)"
  let ?f = "state_file (world_of (checkAndSign env w))"
  from checkAndSign_iteration [OF assms(1)]
  obtain pre st evs post w0 w1 res where d:
    "?tr = pre @ evs @ post @ (case res of None \<Rightarrow> [] | Some err \<Rightarrow> [ErrorLogged err])"
    "epoch_body env e w0 = (st, evs, w1)" "Call SignUptimeVote e (Some err) \<in> set evs"
    "\<forall>ev' \<in> set pre. \<exists>p e' r'. ev' = Call p e' r' \<and> e' < e"
    "\<forall>ev' \<in> set post. \<exists>p e' r'. ev' = Call p e' r' \<and> e < e'"
    by (elim exE conjE) (rule that)
  have "e \<notin> set (completed_epochs pre)" using d(4) by (intro completed_epochs_other) fastforce
  moreover have "e \<notin> set (completed_epochs post)"
    using d(5) by (intro completed_epochs_other) fastforce
  moreover have "completed_epochs evs = []"
    by (rule epoch_body_vote_failed_not_completed [OF d(2,3)])
  moreover have "completed_epochs (case res of None \<Rightarrow> [] | Some err \<Rightarrow> [ErrorLogged err]) = []"
    by (simp add: completed_epochs_def List.map_filter_simps split: option.splits)
  ultimately have 1: "e \<notin> set (completed_epochs ?tr)"
    by (simp add: d(1) completed_epochs_append)
  note f = checkAndSign_file [of env w]
  from assms(3) have in_saved: "e' \<in> set (saved_epochs ?tr)" by (simp add: saved_epochs_mem)
  then have ne: "saved_epochs ?tr \<noteq> []" by auto
  with f have fl: "?f = Content (JSON_stringify_state (last (saved_epochs ?tr)))"
    and srt: "sorted_wrt (<) (saved_epochs ?tr)"
    by (auto split: if_splits)
  from sorted_wrt_less_last_Max [OF srt ne] in_saved have le: "e' \<le> last (saved_epochs ?tr)"
    by simp
  have 2: "\<exists>k. persisted_checkpoint ?f = Some k \<and> e' \<le> k"
    using le by (simp add: fl persisted_checkpoint_stringify)
  have 3: "Call p e r \<notin> set (trace_of (checkAndSign env' \<lparr>state_file = ?f, ext = x\<rparr>))"
    for env' :: "'y collaborators" and x p r
  proof
    assume "Call p e r \<in> set (trace_of (checkAndSign env' \<lparr>state_file = ?f, ext = x\<rparr>))"
    from checkAndSign_epochs [OF this] obtain n cur where
      "resume_point ?f = Some n" "max n (cur - 4) \<le> e"
      by auto
    with resume_point_checkpoint [OF persisted_checkpoint_stringify [of "last (saved_epochs ?tr)"]]
      le assms(4)
    show False by (simp add: fl)
  qed
  from 1 2 3 show ?thesis by blast
qed

theorem unsigned_epoch_left_behind_witness:
  "trace_of (checkAndSign scenario_skip \<lparr>state_file = Content (JSON_stringify_state 4), ext = ()\<rparr>) =
     [Call UptimeVoteHash 5 None, Call GetUptimeVoteHash 5 None,
      Call SignUptimeVote 5 (Some generic_error), Call RewardsHash 5 None,
      Call UptimeVoteHash 6 None, Call RewardsHash 6 None, Call SaveState 6 None] \<and>
   \<not> epoch_not_ended generic_error \<and>
   persisted_checkpoint (state_file (world_of (checkAndSign scenario_skip
      \<lparr>state_file = Content (JSON_stringify_state 4), ext = ()\<rparr>))) = Some 6 \<and>
   (\<forall>(env' :: unit collaborators) x p r. Call p 5 r \<notin> set (trace_of (checkAndSign env'
      \<lparr>state_file = state_file (world_of (checkAndSign scenario_skip
          \<lparr>state_file = Content (JSON_stringify_state 4), ext = ()\<rparr>)), ext = x\<rparr>)))"
proof -
  have tr: "trace_of (checkAndSign scenario_skip \<lparr>state_file = Content (JSON_stringify_state 4), ext = ()\<rparr>) =
     [Call UptimeVoteHash 5 None, Call GetUptimeVoteHash 5 None,
      Call SignUptimeVote 5 (Some generic_error), Call RewardsHash 5 None,
      Call UptimeVoteHash 6 None, Call RewardsHash 6 None, Call SaveState 6 None]"
    by code_simp
  have ge: "\<not> epoch_not_ended generic_error" by code_simp
  have cp: "persisted_checkpoint (state_file (world_of (checkAndSign scenario_skip
      \<lparr>state_file = Content (JSON_stringify_state 4), ext = ()\<rparr>))) = Some 6"
    by code_simp
  have a: "Call SignUptimeVote 5 (Some generic_error) \<in> set (trace_of (checkAndSign scenario_skip
      \<lparr>state_file = Content (JSON_stringify_state 4), ext = ()\<rparr>))"
    and b: "Call SaveState 6 None \<in> set (trace_of (checkAndSign scenario_skip
      \<lparr>state_file = Content (JSON_stringify_state 4), ext = ()\<rparr>))"
    unfolding tr by simp_all
  have c: "(5 :: int) < 6" by simp
  from unsigned_epoch_left_behind [OF a ge b c, where 'y = unit] tr ge cp
  show ?thesis by blast
qed

end
